theory Spec2Isabelle
  imports Main "HOL-Library.Char_ord" "HOL-Library.List_Lexorder"
begin

text \<open>
  A shallow embedding of the header \<open>command_line_parser.hpp\<close>: the class
  \<open>CommandLineParser\<close> with its registration functions, \<open>Parse\<close>, \<open>operator[]\<close>,
  \<open>UsageInfo\<close> and \<open>HelpInfo\<close>, and the class \<open>Value\<close>. A \<open>std::string\<close> is a list of
  bytes, a \<open>std::vector\<close> a list, a \<open>size_t\<close> a natural number (with the wrap-around
  written out where the code subtracts). A member function that changes the parser takes
  the parser and returns the new one. A call that ends the process, and a read that C++
  leaves undefined, is a value of the type \<open>stop\<close>; what the code writes to the standard
  error stream is kept as the diagnostic of that value, not as text.
\<close>

section \<open>Characters and names\<close>

text \<open>
  The classification functions of \<open><cctype>\<close> in the "C" locale, on the byte value of the
  character: \<open>std::isalpha\<close> is true of \<open>A-Z\<close> and \<open>a-z\<close>, \<open>std::isalnum\<close> also of
  \<open>0-9\<close>, and \<open>std::isspace\<close> (used by \<open>strtol\<close>, hence by \<open>std::stoi\<close>) of the blank
  and of the bytes 9 to 13. No byte above 127 is in any of these classes.
\<close>

definition isalpha :: "char \<Rightarrow> bool" where
  "isalpha c = (let n = (of_char c :: nat) in (65 \<le> n \<and> n \<le> 90) \<or> (97 \<le> n \<and> n \<le> 122))"

definition isdigit :: "char \<Rightarrow> bool" where
  "isdigit c = (let n = (of_char c :: nat) in 48 \<le> n \<and> n \<le> 57)"

definition isalnum :: "char \<Rightarrow> bool" where
  "isalnum c = (isalpha c \<or> isdigit c)"

definition isspace :: "char \<Rightarrow> bool" where
  "isspace c = (let n = (of_char c :: nat) in n = 32 \<or> (9 \<le> n \<and> n \<le> 13))"

text \<open>
  \<open>VerifyName\<close>: false on the empty name and on a first character that is no letter;
  the loop rejects a character that is neither alphanumeric, nor a letter, nor \<open>_\<close>.
\<close>

fun VerifyName_loop :: "string \<Rightarrow> bool" where
  "VerifyName_loop [] = True"
| "VerifyName_loop (c # cs) =
     (if \<not> isalnum c \<and> \<not> isalpha c \<and> c \<noteq> CHR ''_'' then False else VerifyName_loop cs)"

definition VerifyName :: "string \<Rightarrow> bool" where
  "VerifyName name =
     (if name = [] \<or> \<not> isalpha (hd name) then False else VerifyName_loop name)"

section \<open>std::stoi\<close>

text \<open>
  \<open>std::stoi(str)\<close> with its default base 10, as the C++ standard defines it through
  \<open>strtol\<close>: leading white space is skipped, one sign is optional, then the longest run
  of decimal digits is read and whatever follows is ignored. It throws
  \<open>std::invalid_argument\<close> when there is no digit to read and \<open>std::out_of_range\<close> when
  the number read does not fit an \<open>int\<close> (32 bits). Both are \<open>std::exception\<close>s, which is
  what \<open>Parse\<close> catches.
\<close>

datatype stoi_exception = invalid_argument | out_of_range

fun decimal :: "int \<Rightarrow> string \<Rightarrow> int" where
  "decimal acc [] = acc"
| "decimal acc (c # cs) = decimal (10 * acc + (int (of_char c) - 48)) cs"

definition stoi :: "string \<Rightarrow> stoi_exception + int" where
  "stoi str =
     (let s = dropWhile isspace str;
          negative = (s \<noteq> [] \<and> hd s = CHR ''-'');
          signed = (s \<noteq> [] \<and> (hd s = CHR ''-'' \<or> hd s = CHR ''+''));
          digits = takeWhile isdigit (if signed then tl s else s);
          n = (if negative then - decimal 0 digits else decimal 0 digits)
      in if digits = [] then Inl invalid_argument
         else if n < - 2147483648 \<or> 2147483647 < n then Inl out_of_range
         else Inr n)"

text \<open>The test of every \<open>try { std::stoi(x); } catch (std::exception &e)\<close> block of Parse.\<close>

definition stoi_throws :: "string \<Rightarrow> bool" where
  "stoi_throws str = (case stoi str of Inl e \<Rightarrow> True | Inr n \<Rightarrow> False)"

section \<open>The data of the parser\<close>

text \<open>
  The class \<open>Value\<close>: \<open>valid_\<close>, \<open>value_\<close> and \<open>values_\<close>, with its three constructors.
  Field names drop the trailing underscore of the source.
\<close>

record Value =
  valid :: bool
  single :: string
  multi :: "string list"

definition Value_default :: Value where
  "Value_default = \<lparr>valid = False, single = [], multi = []\<rparr>"

definition Value_single :: "string \<Rightarrow> Value" where
  "Value_single str_value = \<lparr>valid = (str_value \<noteq> []), single = str_value, multi = []\<rparr>"

definition Value_multi :: "string list \<Rightarrow> Value" where
  "Value_multi str_values =
     \<lparr>valid = True,
      single = (if str_values = [] then [] else str_values ! 0),
      multi = str_values\<rparr>"

text \<open>\<open>operator bool\<close>, \<open>size()\<close>, \<open>ToString()\<close> and \<open>operator[](size_t)\<close> of \<open>Value\<close>.\<close>

definition Value_bool :: "Value \<Rightarrow> bool" where
  "Value_bool v = valid v"

definition Value_size :: "Value \<Rightarrow> nat" where
  "Value_size v = length (multi v)"

definition ToString :: "Value \<Rightarrow> string" where
  "ToString v = single v"

definition Value_at :: "Value \<Rightarrow> nat \<Rightarrow> Value" where
  "Value_at v i = (if i < length (multi v) then Value_single (multi v ! i) else Value_default)"

text \<open>
  The structs \<open>Argument\<close> and \<open>Option\<close>. Both have the members \<open>name\<close>, \<open>note\<close> and
  \<open>only_number\<close>, which carry a prefix here; \<open>Option\<close> is \<open>OptionDecl\<close>, since the
  library has a theory of that name.
\<close>

record Argument =
  arg_name :: string
  arg_note :: string
  arg_only_number :: bool
  is_package :: bool

record OptionDecl =
  opt_name :: string
  short_name :: string
  opt_note :: string
  value_count :: nat
  opt_only_number :: bool
  opt_index :: nat

text \<open>
  A \<open>std::map<std::string, T>\<close> that the code iterates is an association list kept in
  the order of its keys (\<open>std::string\<close> compares bytes lexicographically, as the order on
  \<open>string\<close> here does). \<open>smap_count\<close> is \<open>count\<close>, \<open>smap_set\<close> is an assignment through
  \<open>operator[]\<close>, and \<open>smap_touch\<close> is a bare \<open>m[k]\<close>, which inserts a value-initialised
  entry when the key is absent.
\<close>

type_synonym 'v smap = "(string \<times> 'v) list"

definition smap_count :: "'v smap \<Rightarrow> string \<Rightarrow> bool" where
  "smap_count m k = (map_of m k \<noteq> None)"

fun smap_set :: "string \<Rightarrow> 'v \<Rightarrow> 'v smap \<Rightarrow> 'v smap" where
  "smap_set k v [] = [(k, v)]"
| "smap_set k v ((k', v') # m) =
     (if k = k' then (k, v) # m
      else if k < k' then (k, v) # (k', v') # m
      else (k', v') # smap_set k v m)"

definition smap_touch :: "'v \<Rightarrow> string \<Rightarrow> 'v smap \<Rightarrow> 'v smap" where
  "smap_touch d k m = (if smap_count m k then m else smap_set k d m)"

definition smap_get :: "'v \<Rightarrow> 'v smap \<Rightarrow> string \<Rightarrow> 'v" where
  "smap_get d m k = (case map_of m k of Some v \<Rightarrow> v | None \<Rightarrow> d)"

text \<open>A value-initialised \<open>Option\<close>, as \<open>all_options_[name]\<close> creates it.\<close>

definition Option_default :: OptionDecl where
  "Option_default =
     \<lparr>opt_name = [], short_name = [], opt_note = [], value_count = 0,
      opt_only_number = False, opt_index = 0\<rparr>"

text \<open>
  The members of \<open>CommandLineParser\<close>. The two maps that are only searched and assigned,
  never iterated, are partial functions.
\<close>

record CommandLineParser =
  app_name :: string
  app_path :: string
  app_note :: string
  have_argument_pack :: bool
  all_arguments :: "Argument list"
  all_options :: "OptionDecl smap"
  short_name_to_name_of_option :: "string \<rightharpoonup> string"
  cur_values :: "string \<rightharpoonup> Value"

definition new_parser :: "string \<Rightarrow> string \<Rightarrow> CommandLineParser" where
  "new_parser command_name command_note =
     \<lparr>app_name = command_name, app_path = [], app_note = command_note,
      have_argument_pack = False, all_arguments = [], all_options = [],
      short_name_to_name_of_option = Map.empty, cur_values = Map.empty\<rparr>"

section \<open>Registration\<close>

definition name_exists :: "Argument list \<Rightarrow> string \<Rightarrow> bool" where
  "name_exists args name = (name \<in> set (map arg_name args))"

definition AddArgument ::
  "CommandLineParser \<Rightarrow> string \<Rightarrow> string \<Rightarrow> bool \<Rightarrow> bool \<times> CommandLineParser" where
  "AddArgument p name note only_number =
     (if name = [] \<or> 32 < length name \<or> \<not> VerifyName name then (False, p)
      else if name_exists (all_arguments p) name then (False, p)
      else (True, p\<lparr>all_arguments := all_arguments p @
              [\<lparr>arg_name = name, arg_note = note, arg_only_number = only_number,
                is_package = False\<rparr>]\<rparr>))"

definition AddArgumentPack ::
  "CommandLineParser \<Rightarrow> string \<Rightarrow> string \<Rightarrow> bool \<Rightarrow> bool \<times> CommandLineParser" where
  "AddArgumentPack p name note only_number =
     (if have_argument_pack p then (False, p)
      else if name = [] \<or> 32 < length name \<or> \<not> VerifyName name then (False, p)
      else if name_exists (all_arguments p) name then (False, p)
      else (True, p\<lparr>all_arguments := all_arguments p @
              [\<lparr>arg_name = name, arg_note = note, arg_only_number = only_number,
                is_package = True\<rparr>],
              have_argument_pack := True\<rparr>))"

text \<open>
  \<open>AddOption\<close>. The six assignments through \<open>all_options_[name]\<close> build one entry; its
  index is the size of the map after the insertion, minus one.
\<close>

definition AddOption ::
  "CommandLineParser \<Rightarrow> string \<Rightarrow> nat \<Rightarrow> string \<Rightarrow> string \<Rightarrow> bool \<Rightarrow> bool \<times> CommandLineParser" where
  "AddOption p name count short note only_number =
     (if smap_count (all_options p) name then (False, p)
      else if length name < 3 \<or> 32 < length name \<or> name ! 0 \<noteq> CHR ''-'' \<or>
              name ! 1 \<noteq> CHR ''-'' \<or> \<not> VerifyName (drop 2 name) then (False, p)
      else if short \<noteq> [] \<and> short_name_to_name_of_option p short \<noteq> None then (False, p)
      else if short \<noteq> [] \<and> (length short < 2 \<or> 16 < length short \<or>
              short ! 0 \<noteq> CHR ''-'' \<or> \<not> VerifyName (drop 1 short)) then (False, p)
      else
        (True,
         p\<lparr>all_options :=
             smap_set name
               \<lparr>opt_name = name, short_name = short, opt_note = note, value_count = count,
                opt_only_number = only_number,
                opt_index = length (smap_touch Option_default name (all_options p)) - 1\<rparr>
               (all_options p),
           short_name_to_name_of_option :=
             (if short \<noteq> [] then (short_name_to_name_of_option p)(short \<mapsto> name)
              else short_name_to_name_of_option p)\<rparr>))"

section \<open>How a call of Parse ends\<close>

text \<open>
  Every failure of \<open>Parse\<close> writes a diagnostic to the standard error stream and calls
  \<open>show_usage_info_and_exit\<close>, which ends the process with \<open>exit(-1)\<close>. The diagnostic
  keeps what the message prints. \<open>Exit_0\<close> is the \<open>exit(0)\<close> of the two built-in
  shortcuts, with the text written to the standard output stream. \<open>Undefined_read\<close> is a
  read of a \<open>std::vector\<close> element past its end, which C++ leaves undefined.
\<close>

datatype diagnostic =
    ArgcError
  | OptionRequireNumber string string
  | OptionValueCount string nat nat
  | ArgumentCountAtLeast nat nat
  | PackValueCount string nat
  | PackRequireNumber string string
  | ArgumentRequireNumber string string
  | ArgumentCountMustBe nat nat

datatype stop = Exit_0 string | Exit_failure diagnostic | Undefined_read

section \<open>Parse: the scan of the raw tokens\<close>

text \<open>
  The inner loop over \<open>j\<close>: each round advances \<open>i\<close> and takes \<open>args[i]\<close> as a value of
  the option, after the number check if the option asks for it; \<open>rest\<close> holds the tokens
  after index \<open>i\<close>. The values come back in order, with the tokens that are left.
\<close>

fun take_values ::
  "string \<Rightarrow> bool \<Rightarrow> nat \<Rightarrow> nat \<Rightarrow> string list \<Rightarrow> stop + (string list \<times> string list)" where
  "take_values option_name only_number option_value_count j rest =
     (if j < option_value_count then
        (case rest of
           [] \<Rightarrow> Inl (Exit_failure (OptionValueCount option_name option_value_count j))
         | a # rest' \<Rightarrow>
             if only_number \<and> stoi_throws a
             then Inl (Exit_failure (OptionRequireNumber option_name a))
             else (case take_values option_name only_number option_value_count (Suc j) rest' of
                     Inl e \<Rightarrow> Inl e
                   | Inr (vals, rest'') \<Rightarrow> Inr (a # vals, rest'')))
      else Inr ([], rest))"

declare take_values.simps [simp del]

lemma take_values_rest:
  "take_values n b c j rest = Inr (vals, rest') \<Longrightarrow> rest = vals @ rest'"
proof (induction rest arbitrary: j vals)
  case Nil
  then show ?case by (simp add: take_values.simps [of _ _ _ _ "[]"] split: if_splits)
next
  case (Cons a rest)
  from Cons.prems show ?case
    by (auto simp: take_values.simps [of _ _ _ _ "a # rest"] split: if_splits sum.splits prod.splits
        dest: Cons.IH)
qed

text \<open>
  The outer loop over \<open>i\<close>. A token that is a key of \<open>all_options_\<close>, or else a key of
  \<open>short_name_to_name_of_option_\<close>, starts an option; any other token is pushed onto
  \<open>cur_arguments\<close>. The bare \<open>cur_options[option_name]\<close> creates the entry when it is
  absent and leaves an entry that is there as it is; every value is then pushed onto the
  back of that entry. \<open>all_options_[option_name]\<close> may insert too, so the map is threaded
  through the loop.
\<close>

function scan ::
  "OptionDecl smap \<Rightarrow> (string \<rightharpoonup> string) \<Rightarrow> string list \<Rightarrow> string list \<Rightarrow> string list smap \<Rightarrow>
   stop + (string list \<times> string list smap \<times> OptionDecl smap)" where
  "scan opts shorts [] cur_arguments cur_options = Inr (cur_arguments, cur_options, opts)"
| "scan opts shorts (str # rest) cur_arguments cur_options =
     (let option_name =
            (if smap_count opts str then str
             else (case shorts str of Some n \<Rightarrow> n | None \<Rightarrow> []))
      in if option_name = [] then scan opts shorts rest (cur_arguments @ [str]) cur_options
         else
           (let cur_options1 = smap_touch [] option_name cur_options;
                opts1 = smap_touch Option_default option_name opts;
                opt = smap_get Option_default opts1 option_name
            in case take_values option_name (opt_only_number opt) (value_count opt) 0 rest of
                 Inl e \<Rightarrow> Inl e
               | Inr (vals, rest') \<Rightarrow>
                   scan opts1 shorts rest' cur_arguments
                     (smap_set option_name (smap_get [] cur_options1 option_name @ vals)
                        cur_options1)))"
  by pat_completeness auto
termination
  by (relation "measure (\<lambda>(opts, shorts, toks, ca, co). length toks)")
     (auto dest: take_values_rest)

section \<open>Parse: the checks of the positional tokens\<close>

text \<open>
  \<open>size_t\<close> is unsigned and 64 bits wide: a difference that would be negative wraps
  around. Sizes of vectors are below \<open>2 ^ 64 - 1\<close>.
\<close>

definition size_t_sub :: "nat \<Rightarrow> nat \<Rightarrow> nat" where
  "size_t_sub a b = (if b \<le> a then a - b else 2 ^ 64 - (b - a))"

text \<open>
  The loop over \<open>k\<close> of the first pass: the number check of the pack on
  \<open>cur_arguments[j]\<close>, then \<open>++j\<close>. The result is \<open>j\<close> after the loop.
\<close>

fun check_pack_tokens :: "Argument \<Rightarrow> string list \<Rightarrow> nat \<Rightarrow> nat \<Rightarrow> stop + nat" where
  "check_pack_tokens a cur 0 j = Inr j"
| "check_pack_tokens a cur (Suc k) j =
     (if arg_only_number a then
        (if j < length cur then
           (if stoi_throws (cur ! j)
            then Inl (Exit_failure (PackRequireNumber (arg_name a) (cur ! j)))
            else check_pack_tokens a cur k (Suc j))
         else Inl Undefined_read)
      else check_pack_tokens a cur k (Suc j))"

text \<open>
  The first pass when there is a pack: \<open>for (size_t i = 0, j = 0; i < size; ++i, ++j)\<close>.
  The increment of the \<open>for\<close> adds one to \<open>j\<close> after every argument, the pack included,
  whose own loop has already moved \<open>j\<close> past its tokens.
\<close>

fun validate_pack :: "Argument list \<Rightarrow> string list \<Rightarrow> nat \<Rightarrow> nat \<Rightarrow> stop + unit" where
  "validate_pack [] cur pack_value_count j = Inr ()"
| "validate_pack (a # as) cur pack_value_count j =
     (if is_package a then
        (if pack_value_count \<le> 0
         then Inl (Exit_failure (PackValueCount (arg_name a) pack_value_count))
         else (case check_pack_tokens a cur pack_value_count j of
                 Inl e \<Rightarrow> Inl e
               | Inr j' \<Rightarrow> validate_pack as cur pack_value_count (Suc j')))
      else if arg_only_number a then
        (if j < length cur then
           (if stoi_throws (cur ! j)
            then Inl (Exit_failure (ArgumentRequireNumber (arg_name a) (cur ! j)))
            else validate_pack as cur pack_value_count (Suc j))
         else Inl Undefined_read)
      else validate_pack as cur pack_value_count (Suc j))"

text \<open>The first pass when there is no pack, after the count was found right.\<close>

fun validate_plain :: "Argument list \<Rightarrow> string list \<Rightarrow> nat \<Rightarrow> stop + unit" where
  "validate_plain [] cur i = Inr ()"
| "validate_plain (a # as) cur i =
     (if arg_only_number a then
        (if i < length cur then
           (if stoi_throws (cur ! i)
            then Inl (Exit_failure (ArgumentRequireNumber (arg_name a) (cur ! i)))
            else validate_plain as cur (Suc i))
         else Inl Undefined_read)
      else validate_plain as cur (Suc i))"

text \<open>
  \<open>pack_value_count\<close> is \<open>cur_arguments.size() - all_arguments_.size() + 1\<close> in
  \<open>size_t\<close>, which is \<open>cur_arguments.size() + 1 - all_arguments_.size()\<close> wrapped.
\<close>

definition validate :: "bool \<Rightarrow> Argument list \<Rightarrow> string list \<Rightarrow> stop + unit" where
  "validate have_pack args cur =
     (if have_pack then
        (if length cur < size_t_sub (length args) 1
         then Inl (Exit_failure (ArgumentCountAtLeast (size_t_sub (length args) 1) (length cur)))
         else validate_pack args cur (size_t_sub (length cur + 1) (length args)) 0)
      else if length cur \<noteq> length args
        then Inl (Exit_failure (ArgumentCountMustBe (length args) (length cur)))
        else validate_plain args cur 0)"

section \<open>Parse: binding the values\<close>

text \<open>The loop over \<open>k\<close> of the second pass: the tokens of the pack, and \<open>j\<close> after it.\<close>

fun collect_pack ::
  "string list \<Rightarrow> nat \<Rightarrow> nat \<Rightarrow> string list \<Rightarrow> stop + (string list \<times> nat)" where
  "collect_pack cur 0 j vals = Inr (vals, j)"
| "collect_pack cur (Suc k) j vals =
     (if j < length cur then collect_pack cur k (Suc j) (vals @ [cur ! j])
      else Inl Undefined_read)"

text \<open>
  The second pass when there is a pack: \<open>for (size_t i = 0, j = 0; i < size; ++i)\<close>. Here
  only \<open>i\<close> is incremented by the \<open>for\<close>.
\<close>

fun bind_pack ::
  "Argument list \<Rightarrow> string list \<Rightarrow> nat \<Rightarrow> nat \<Rightarrow> (string \<rightharpoonup> Value) \<Rightarrow>
   stop + (string \<rightharpoonup> Value)" where
  "bind_pack [] cur pack_value_count j cv = Inr cv"
| "bind_pack (a # as) cur pack_value_count j cv =
     (if is_package a then
        (case collect_pack cur pack_value_count j [] of
           Inl e \<Rightarrow> Inl e
         | Inr (vals, j') \<Rightarrow>
             bind_pack as cur pack_value_count j' (cv(arg_name a \<mapsto> Value_multi vals)))
      else if j < length cur
        then bind_pack as cur pack_value_count (Suc j) (cv(arg_name a \<mapsto> Value_single (cur ! j)))
        else Inl Undefined_read)"

text \<open>The second pass when there is no pack: a loop over the positional tokens.\<close>

fun bind_plain ::
  "Argument list \<Rightarrow> string list \<Rightarrow> nat \<Rightarrow> (string \<rightharpoonup> Value) \<Rightarrow> stop + (string \<rightharpoonup> Value)" where
  "bind_plain args [] i cv = Inr cv"
| "bind_plain args (c # cs) i cv =
     (if i < length args
      then bind_plain args cs (Suc i) (cv(arg_name (args ! i) \<mapsto> Value_single c))
      else Inl Undefined_read)"

definition bind_arguments ::
  "bool \<Rightarrow> Argument list \<Rightarrow> string list \<Rightarrow> (string \<rightharpoonup> Value) \<Rightarrow> stop + (string \<rightharpoonup> Value)" where
  "bind_arguments have_pack args cur cv =
     (if have_pack
      then bind_pack args cur (size_t_sub (length cur + 1) (length args)) 0 cv
      else bind_plain args cur 0 cv)"

text \<open>
  The last loop, over \<open>cur_options\<close> in the order of its keys: the long name is bound,
  and the short name too when the option has one.
\<close>

fun bind_options :: "OptionDecl smap \<Rightarrow> string list smap \<Rightarrow> (string \<rightharpoonup> Value) \<Rightarrow> (string \<rightharpoonup> Value)" where
  "bind_options opts [] cv = cv"
| "bind_options opts ((option_name, vals) # rest) cv =
     (let cv1 = cv(option_name \<mapsto> Value_multi vals);
          short = short_name (smap_get Option_default opts option_name)
      in bind_options opts rest (if short \<noteq> [] then cv1(short \<mapsto> Value_multi vals) else cv1))"

section \<open>UsageInfo and HelpInfo\<close>

text \<open>The decimal digits of a \<open>size_t\<close>, as \<open>operator<<\<close> and \<open>std::to_string\<close> write it.\<close>

fun to_string :: "nat \<Rightarrow> string" where
  "to_string n =
     (if n < 10 then [char_of (48 + n)]
      else to_string (n div 10) @ [char_of (48 + n mod 10)])"

declare to_string.simps [simp del]

text \<open>
  The options in the order of their \<open>index\<close>: the values of the map, in the order of the
  keys, sorted by \<open>index\<close>. (\<open>std::sort\<close> leaves the order of equal elements open; every
  option that \<open>AddOption\<close> stores has an index of its own.)
\<close>

definition sorted_options :: "OptionDecl smap \<Rightarrow> OptionDecl list" where
  "sorted_options opts = sort_key opt_index (map snd opts)"

definition usage_argument :: "Argument \<Rightarrow> string" where
  "usage_argument a =
     '' <'' @ arg_name a @ (if is_package a then ''...'' else []) @
     (if arg_only_number a then '': NUM'' else []) @ ''>''"

definition usage_option :: "OptionDecl \<Rightarrow> string" where
  "usage_option opt =
     '' ['' @
     (if short_name opt = [] then opt_name opt else short_name opt @ ''|'' @ opt_name opt) @
     concat (map (\<lambda>i. (if opt_only_number opt then '' N'' else '' V'') @ to_string (i + 1))
               [0 ..< value_count opt]) @
     '']''"

definition UsageInfo :: "CommandLineParser \<Rightarrow> string" where
  "UsageInfo p =
     ''Usage: '' @ (if app_path p \<noteq> [] then app_path p else ''command'') @
     concat (map usage_argument (all_arguments p)) @
     concat (map usage_option (sorted_options (all_options p)))"

text \<open>\<open>std::left << std::setw(w)\<close>: the text, filled with blanks on the right up to \<open>w\<close>.\<close>

definition setw_left :: "nat \<Rightarrow> string \<Rightarrow> string" where
  "setw_left w str = str @ replicate (w - length str) CHR '' ''"

definition endl :: string where
  "endl = [CHR 0x0A]"

text \<open>
  The lambda \<open>print_note\<close>: every line of the note but the last is followed by a line break
  and a column of blanks; what is left after the last line break follows a blank.
\<close>

function print_note :: "string \<Rightarrow> nat \<Rightarrow> string" where
  "print_note note left_width =
     (if note \<noteq> [] \<and> CHR 0x0A \<in> set note then
        '' '' @ takeWhile (\<lambda>c. c \<noteq> CHR 0x0A) note @ endl @ setw_left left_width '' '' @
        print_note (tl (dropWhile (\<lambda>c. c \<noteq> CHR 0x0A) note)) left_width
      else if note \<noteq> [] then '' '' @ note
      else [])"
  by pat_completeness auto
termination
proof (relation "measure (\<lambda>(note, w). length note)")
  show "wf (measure (\<lambda>(note, w). length note))" by simp
next
  fix s :: string and left_width :: nat
  assume "s \<noteq> [] \<and> CHR 0x0A \<in> set s"
  then have "dropWhile (\<lambda>c. c \<noteq> CHR 0x0A) s \<noteq> []" by simp
  then have "length (tl (dropWhile (\<lambda>c. c \<noteq> CHR 0x0A) s))
             < length (dropWhile (\<lambda>c. c \<noteq> CHR 0x0A) s)"
    by (cases "dropWhile (\<lambda>c. c \<noteq> CHR 0x0A) s") simp_all
  also have "\<dots> \<le> length s" by (rule length_dropWhile_le)
  finally show "((tl (dropWhile (\<lambda>c. c \<noteq> CHR 0x0A) s), left_width), (s, left_width))
                \<in> measure (\<lambda>(note, w). length note)"
    by simp
qed

declare print_note.simps [simp del]

definition help_argument_left :: "Argument \<Rightarrow> string" where
  "help_argument_left a =
     '' <'' @ arg_name a @ (if is_package a then ''...>'' else ''>'') @
     (if arg_only_number a then '': N'' else '': V'')"

definition help_option_left :: "OptionDecl \<Rightarrow> string" where
  "help_option_left opt =
     '' ['' @
     (if short_name opt = [] then opt_name opt else short_name opt @ ''|'' @ opt_name opt) @
     (if 0 < value_count opt then '' '' else []) @
     concat (map (\<lambda>i. (if opt_only_number opt then ''N'' else ''V'') @ to_string (i + 1) @
                      (if i < value_count opt - 1 then '' '' else []))
               [0 ..< value_count opt]) @
     '']''"

definition column_width :: "string list \<Rightarrow> nat" where
  "column_width lefts = min 50 (fold (\<lambda>left width. max width (length left)) lefts 0 + 10)"

definition help_rows :: "string list \<Rightarrow> string list \<Rightarrow> string" where
  "help_rows lefts notes =
     concat (map (\<lambda>(left, note).
                    setw_left (column_width lefts) left @
                    print_note note (column_width lefts) @ endl)
               (zip lefts notes))"

text \<open>
  \<open>HelpInfo\<close> swaps \<open>app_name_\<close> and \<open>app_path_\<close> around its call of \<open>UsageInfo\<close>, so the
  first line names the command.
\<close>

definition HelpInfo :: "CommandLineParser \<Rightarrow> string" where
  "HelpInfo p =
     UsageInfo (p\<lparr>app_name := app_path p, app_path := app_name p\<rparr>) @ endl @
     (if app_note p \<noteq> [] then app_note p @ endl else []) @
     (if all_arguments p \<noteq> [] then
        endl @
        ''Argument with '' @ [CHR 0x27] @ ''...'' @ [CHR 0x27] @ '' is package, '' @
        [CHR 0x27] @ ''N'' @ [CHR 0x27] @ '' means number, '' @
        [CHR 0x27] @ ''V'' @ [CHR 0x27] @ '' means string: '' @ endl @
        help_rows (map help_argument_left (all_arguments p)) (map arg_note (all_arguments p))
      else []) @
     (if all_options p \<noteq> [] then
        endl @
        ''Option value with '' @ [CHR 0x27] @ ''N'' @ [CHR 0x27] @ '' means number, '' @
        [CHR 0x27] @ ''V'' @ [CHR 0x27] @ '' means string: '' @ endl @
        help_rows (map help_option_left (sorted_options (all_options p)))
          (map opt_note (sorted_options (all_options p)))
      else [])"

section \<open>Parse\<close>

text \<open>
  \<open>Parse(argc, argv)\<close>, with \<open>argv\<close> as the list of its \<open>argc\<close> strings. A call that
  returns gives \<open>true\<close> and the parser as it is then; every other call ends the process.
\<close>

definition tokens_of ::
  "CommandLineParser \<Rightarrow> string list \<Rightarrow>
   stop + (string list \<times> string list smap \<times> OptionDecl smap)" where
  "tokens_of p args = scan (all_options p) (short_name_to_name_of_option p) args [] []"

definition Parse :: "CommandLineParser \<Rightarrow> string list \<Rightarrow> stop + CommandLineParser" where
  "Parse p argv =
     (case argv of
        [] \<Rightarrow> Inl (Exit_failure ArgcError)
      | path # args \<Rightarrow>
          (let p1 = p\<lparr>app_path := path, cur_values := Map.empty\<rparr> in
           if length argv = 2 \<and> \<not> smap_count (all_options p1) ''--help'' \<and>
              argv ! 1 = ''--help''
           then Inl (Exit_0 (HelpInfo p1 @ endl))
           else if length argv = 2 \<and> \<not> smap_count (all_options p1) ''--usage'' \<and>
              argv ! 1 = ''--usage''
           then Inl (Exit_0 (UsageInfo p1 @ endl))
           else
             (case tokens_of p1 args of
                Inl e \<Rightarrow> Inl e
              | Inr (cur_arguments, cur_options, opts) \<Rightarrow>
                  (case validate (have_argument_pack p1) (all_arguments p1) cur_arguments of
                     Inl e \<Rightarrow> Inl e
                   | Inr u \<Rightarrow>
                       (case bind_arguments (have_argument_pack p1) (all_arguments p1)
                               cur_arguments Map.empty of
                          Inl e \<Rightarrow> Inl e
                        | Inr cv \<Rightarrow>
                            Inr (p1\<lparr>all_options := opts,
                                    cur_values := bind_options opts cur_options cv\<rparr>))))))"

text \<open>\<open>operator[]\<close> of the parser, and a call of it after a call of \<open>Parse\<close>.\<close>

definition operator_index :: "CommandLineParser \<Rightarrow> string \<Rightarrow> Value" where
  "operator_index p name = (case cur_values p name of Some v \<Rightarrow> v | None \<Rightarrow> Value_default)"

definition Parse_then_index :: "CommandLineParser \<Rightarrow> string list \<Rightarrow> string \<Rightarrow> stop + Value" where
  "Parse_then_index p argv name =
     (case Parse p argv of Inl e \<Rightarrow> Inl e | Inr p' \<Rightarrow> Inr (operator_index p' name))"

text \<open>A call of \<open>UsageInfo\<close> after a call of \<open>Parse\<close>.\<close>

definition Parse_then_UsageInfo :: "CommandLineParser \<Rightarrow> string list \<Rightarrow> stop + string" where
  "Parse_then_UsageInfo p argv =
     (case Parse p argv of Inl e \<Rightarrow> Inl e | Inr p' \<Rightarrow> Inr (UsageInfo p'))"

text \<open>
  The parsers a program can hold: a new one, and what the registration functions and a
  returning \<open>Parse\<close> make of one.
\<close>

inductive reachable :: "CommandLineParser \<Rightarrow> bool" where
  reach_new: "reachable (new_parser command_name command_note)"
| reach_AddArgument:
    "reachable p \<Longrightarrow> reachable (snd (AddArgument p name note only_number))"
| reach_AddArgumentPack:
    "reachable p \<Longrightarrow> reachable (snd (AddArgumentPack p name note only_number))"
| reach_AddOption:
    "reachable p \<Longrightarrow> reachable (snd (AddOption p name count short note only_number))"
| reach_Parse:
    "reachable p \<Longrightarrow> Parse p argv = Inr p' \<Longrightarrow> reachable p'"

section \<open>Notions used by the statements\<close>

text \<open>
  The definitions of this section are not code of the parser: they name what the
  statements below talk about. First the shapes of a long and of a short name that
  \<open>AddOption\<close> lets through.
\<close>

definition is_long :: "string \<Rightarrow> bool" where
  "is_long n = (3 \<le> length n \<and> n ! 0 = CHR ''-'' \<and> n ! 1 = CHR ''-'' \<and> VerifyName (drop 2 n))"

definition is_short :: "string \<Rightarrow> bool" where
  "is_short s = (2 \<le> length s \<and> s ! 0 = CHR ''-'' \<and> VerifyName (drop 1 s))"

text \<open>
  The option that a token starts, by its long name; the empty string when the token starts
  none. This is the test at the head of the scan.
\<close>

definition option_of :: "OptionDecl smap \<Rightarrow> (string \<rightharpoonup> string) \<Rightarrow> string \<Rightarrow> string" where
  "option_of opts shorts str =
     (if smap_count opts str then str else (case shorts str of Some n \<Rightarrow> n | None \<Rightarrow> []))"

text \<open>
  The occurrences of options in the raw tokens, in the words of the specification: going
  from left to right, a token that starts an option opens an occurrence of it, the next
  \<open>A\<close> tokens (\<open>A\<close> the arity of the option) are the values captured at this occurrence,
  and the walk goes on behind them; any other token is positional. The scan of the code
  is compared with this walk in lemma \<open>scan_result\<close>. \<open>captured\<close> gives the value lists
  of the occurrences of one option, in order.
\<close>

function occurrences ::
  "OptionDecl smap \<Rightarrow> (string \<rightharpoonup> string) \<Rightarrow> string list \<Rightarrow> (string \<times> string list) list" where
  "occurrences opts shorts [] = []"
| "occurrences opts shorts (str # rest) =
     (if option_of opts shorts str = [] then occurrences opts shorts rest
      else (option_of opts shorts str,
            take (value_count (smap_get Option_default opts (option_of opts shorts str))) rest) #
           occurrences opts shorts
             (drop (value_count (smap_get Option_default opts (option_of opts shorts str))) rest))"
  by pat_completeness auto
termination
  by (relation "measure (\<lambda>(opts, shorts, toks). length toks)") auto

definition captured :: "(string \<times> string list) list \<Rightarrow> string \<Rightarrow> string list list" where
  "captured occs n = map snd (filter (\<lambda>occ. fst occ = n) occs)"

text \<open>
  What the registration functions keep true of a parser: every short name belongs to a
  registered option; the options are stored under their own long names, in the order of
  the keys; long names, short names and the names of arguments are well formed, so no two
  of them collide; the names of the arguments differ; the flag of the pack is set exactly
  when an argument is the pack, and at most one is.
\<close>

definition aliases_closed :: "OptionDecl smap \<Rightarrow> (string \<rightharpoonup> string) \<Rightarrow> bool" where
  "aliases_closed opts shorts = (\<forall>s n. shorts s = Some n \<longrightarrow> smap_count opts n)"

definition wf_schema :: "CommandLineParser \<Rightarrow> bool" where
  "wf_schema p \<longleftrightarrow>
     sorted_wrt (<) (map fst (all_options p)) \<and>
     (\<forall>k opt. map_of (all_options p) k = Some opt \<longrightarrow>
        is_long k \<and>
        (short_name opt = [] \<or>
         is_short (short_name opt) \<and> short_name_to_name_of_option p (short_name opt) = Some k)) \<and>
     (\<forall>s n. short_name_to_name_of_option p s = Some n \<longrightarrow>
        (\<exists>opt. map_of (all_options p) n = Some opt \<and> short_name opt = s)) \<and>
     (\<forall>a \<in> set (all_arguments p). VerifyName (arg_name a)) \<and>
     distinct (map arg_name (all_arguments p)) \<and>
     (have_argument_pack p \<longleftrightarrow> (\<exists>a \<in> set (all_arguments p). is_package a)) \<and>
     length (filter is_package (all_arguments p)) \<le> 1"

text \<open>An entry of \<open>cur_options\<close> after the value lists \<open>ws\<close> were appended to it.\<close>

definition combine :: "string list option \<Rightarrow> string list list \<Rightarrow> string list option" where
  "combine old ws =
     (if ws = [] then old else Some ((case old of None \<Rightarrow> [] | Some v \<Rightarrow> v) @ concat ws))"

text \<open>
  The index of the pack among the declared Arguments (their number when there is none), and
  the index of the positional token that belongs to Argument \<open>i\<close> when there are \<open>P\<close>
  positional tokens: its own index up to the pack, and \<open>P - D\<close> further behind the pack,
  which takes \<open>P - (D - 1)\<close> tokens instead of one. \<open>second_pass_index\<close> is the value of
  \<open>j\<close> in the second pass of the code when it comes to Argument \<open>i\<close>.
\<close>

definition pack_position :: "Argument list \<Rightarrow> nat" where
  "pack_position args = length (takeWhile (\<lambda>a. \<not> is_package a) args)"

definition token_index :: "Argument list \<Rightarrow> nat \<Rightarrow> nat \<Rightarrow> nat" where
  "token_index args P i = (if i \<le> pack_position args then i else i + P - length args)"

definition second_pass_index :: "Argument list \<Rightarrow> nat \<Rightarrow> nat \<Rightarrow> nat" where
  "second_pass_index args pvc i = sum_list (map (\<lambda>a. if is_package a then pvc else 1) (take i args))"

section \<open>Lemmas\<close>

subsection \<open>Names do not collide\<close>

lemma VerifyName_hd: "VerifyName n \<Longrightarrow> n \<noteq> [] \<and> isalpha (hd n)"
  by (auto simp: VerifyName_def split: if_splits)

lemma not_isalpha_dash: "\<not> isalpha CHR ''-''"
  by (simp add: isalpha_def)

lemma long_not_short: "is_long n \<Longrightarrow> is_short s \<Longrightarrow> n \<noteq> s"
proof
  assume l: "is_long n" and s: "is_short s" and eq: "n = s"
  from s have "isalpha (hd (drop 1 s))" and "1 < length s"
    by (auto simp: is_short_def dest: VerifyName_hd)
  then have "isalpha (s ! 1)" by (simp add: hd_drop_conv_nth)
  moreover from l eq have "s ! 1 = CHR ''-''" by (simp add: is_long_def)
  ultimately show False by (simp add: not_isalpha_dash)
qed

lemma name_not_dash: "VerifyName a \<Longrightarrow> a ! 0 \<noteq> CHR ''-''"
proof
  assume v: "VerifyName a" and "a ! 0 = CHR ''-''"
  with VerifyName_hd [OF v] show False
    by (cases a) (auto simp: not_isalpha_dash)
qed

lemma name_not_long: "VerifyName a \<Longrightarrow> is_long n \<Longrightarrow> a \<noteq> n"
  using name_not_dash by (auto simp: is_long_def)

lemma name_not_short: "VerifyName a \<Longrightarrow> is_short s \<Longrightarrow> a \<noteq> s"
  using name_not_dash by (auto simp: is_short_def)

subsection \<open>Maps in the order of their keys\<close>

lemma map_of_smap_set: "map_of (smap_set k v m) = (map_of m)(k \<mapsto> v)"
  by (induction m) (auto simp: fun_eq_iff)

lemma keys_smap_set: "fst ` set (smap_set k v m) = insert k (fst ` set m)"
  by (simp add: map_of_smap_set flip: dom_map_of_conv_image_fst)

lemma sorted_smap_set:
  "sorted_wrt (<) (map fst m) \<Longrightarrow> sorted_wrt (<) (map fst (smap_set k v m))"
proof (induction m)
  case Nil
  then show ?case by simp
next
  case (Cons a m)
  obtain k' v' where a: "a = (k', v')" by (cases a)
  show ?case
  proof (cases "k = k'")
    case True
    with Cons.prems a show ?thesis by simp
  next
    case False
    show ?thesis
    proof (cases "k < k'")
      case True
      with Cons.prems a show ?thesis by (auto intro: less_trans)
    next
      case ge: False
      with False have "k' < k" by simp
      with Cons a False ge show ?thesis
        by (auto simp: keys_smap_set [simplified] image_iff dest!: arg_cong [where f = set])
    qed
  qed
qed

lemma smap_count_iff: "smap_count m k \<longleftrightarrow> k \<in> fst ` set m"
  by (simp add: smap_count_def map_of_eq_None_iff)

lemma sorted_smap_touch:
  "sorted_wrt (<) (map fst m) \<Longrightarrow> sorted_wrt (<) (map fst (smap_touch d k m))"
  by (simp add: smap_touch_def sorted_smap_set)

lemma sorted_distinct_keys: "sorted_wrt (<) (map fst (m :: 'v smap)) \<Longrightarrow> distinct (map fst m)"
  using strict_sorted_iff by blast

subsection \<open>The scan\<close>

lemma take_values_length:
  "take_values n b c j rest = Inr (vals, rest') \<Longrightarrow> length vals = c - j"
proof (induction rest arbitrary: j vals)
  case Nil
  then show ?case by (simp add: take_values.simps [of _ _ _ _ "[]"] split: if_splits)
next
  case (Cons a rest)
  from Cons.prems show ?case
    by (auto simp: take_values.simps [of _ _ _ _ "a # rest"] split: if_splits sum.splits prod.splits
        dest!: Cons.IH)
qed

lemma take_values_take_drop:
  assumes "take_values n b c 0 rest = Inr (vals, rest')"
  shows "vals = take c rest \<and> rest' = drop c rest"
  using take_values_rest [OF assms] take_values_length [OF assms] by auto

lemma option_of_closed:
  "aliases_closed opts shorts \<Longrightarrow> option_of opts shorts str \<noteq> [] \<Longrightarrow>
   smap_count opts (option_of opts shorts str)"
  by (auto simp: option_of_def aliases_closed_def split: if_splits option.splits)

lemma scan_Cons:
  assumes "aliases_closed opts shorts"
  shows "scan opts shorts (str # rest) ca co =
     (if option_of opts shorts str = [] then scan opts shorts rest (ca @ [str]) co
      else (case take_values (option_of opts shorts str)
                  (opt_only_number (smap_get Option_default opts (option_of opts shorts str)))
                  (value_count (smap_get Option_default opts (option_of opts shorts str))) 0 rest of
              Inl e \<Rightarrow> Inl e
            | Inr (vals, rest') \<Rightarrow>
                scan opts shorts rest' ca
                  (smap_set (option_of opts shorts str)
                     (smap_get [] co (option_of opts shorts str) @ vals)
                     (smap_touch [] (option_of opts shorts str) co))))"
proof (cases "option_of opts shorts str = []")
  case True
  then show ?thesis by (simp add: option_of_def)
next
  case False
  from option_of_closed [OF assms False]
  have t: "smap_touch Option_default (option_of opts shorts str) opts = opts"
    by (simp add: smap_touch_def)
  have g: "smap_get [] (smap_touch [] (option_of opts shorts str) co) (option_of opts shorts str)
         = smap_get [] co (option_of opts shorts str)"
    by (simp add: smap_get_def smap_touch_def smap_count_def map_of_smap_set)
  from False t g show ?thesis
    by (simp add: option_of_def [symmetric] Let_def split: sum.splits prod.splits)
qed

lemma scan_opts:
  "aliases_closed opts shorts \<Longrightarrow> scan opts shorts toks ca co = Inr (ca', co', opts') \<Longrightarrow>
   opts' = opts"
proof (induction toks arbitrary: ca co rule: length_induct)
  case (1 toks)
  show ?case
  proof (cases toks)
    case Nil
    with "1.prems" show ?thesis by simp
  next
    case (Cons str rest)
    show ?thesis
    proof (cases "option_of opts shorts str = []")
      case True
      with "1.prems" Cons have "scan opts shorts rest (ca @ [str]) co = Inr (ca', co', opts')"
        by (simp add: scan_Cons del: scan.simps)
      with "1.IH" "1.prems"(1) Cons show ?thesis by auto
    next
      case False
      with "1.prems" Cons obtain vals rest' where
        tv: "take_values (option_of opts shorts str)
               (opt_only_number (smap_get Option_default opts (option_of opts shorts str)))
               (value_count (smap_get Option_default opts (option_of opts shorts str))) 0 rest
             = Inr (vals, rest')"
        and sc: "scan opts shorts rest' ca
                  (smap_set (option_of opts shorts str)
                     (smap_get [] co (option_of opts shorts str) @ vals)
                     (smap_touch [] (option_of opts shorts str) co)) = Inr (ca', co', opts')"
        by (auto simp: scan_Cons simp del: scan.simps split: sum.splits prod.splits)
      from take_values_rest [OF tv] Cons have "length rest' < length toks" by simp
      with "1.IH" "1.prems"(1) sc show ?thesis by blast
    qed
  qed
qed

subsection \<open>What registration keeps true\<close>

lemma wf_new: "wf_schema (new_parser a b)"
  by (simp add: wf_schema_def new_parser_def)

lemma wf_AddArgument: "wf_schema p \<Longrightarrow> wf_schema (snd (AddArgument p name note only_number))"
  by (auto simp: wf_schema_def AddArgument_def name_exists_def)

lemma wf_AddArgumentPack:
  "wf_schema p \<Longrightarrow> wf_schema (snd (AddArgumentPack p name note only_number))"
  by (auto simp: wf_schema_def AddArgumentPack_def name_exists_def filter_empty_conv)

lemma wf_AddOption:
  assumes "wf_schema p"
  shows "wf_schema (snd (AddOption p name count short note only_number))"
proof (cases "fst (AddOption p name count short note only_number)")
  case False
  then have "snd (AddOption p name count short note only_number) = p"
    by (auto simp: AddOption_def split: if_splits)
  with assms show ?thesis by simp
next
  case True
  then have fresh: "map_of (all_options p) name = None"
    and long: "is_long name"
    and sh: "short = [] \<or> (short_name_to_name_of_option p short = None \<and> is_short short)"
    by (auto simp: AddOption_def smap_count_def is_long_def is_short_def split: if_splits)
  define p' where "p' = snd (AddOption p name count short note only_number)"
  from True obtain opt where
    opts': "map_of (all_options p') = (map_of (all_options p))(name \<mapsto> opt)"
    and short_opt: "short_name opt = short"
    and sorted': "sorted_wrt (<) (map fst (all_options p')) =
                  sorted_wrt (<) (map fst (smap_set name opt (all_options p)))"
    and shorts': "short_name_to_name_of_option p' =
       (if short \<noteq> [] then (short_name_to_name_of_option p)(short \<mapsto> name)
        else short_name_to_name_of_option p)"
    and rest: "all_arguments p' = all_arguments p" "have_argument_pack p' = have_argument_pack p"
    by (auto simp: p'_def AddOption_def map_of_smap_set split: if_splits)
  from assms have
    A: "\<And>k o'. map_of (all_options p) k = Some o' \<Longrightarrow>
          is_long k \<and> (short_name o' = [] \<or> is_short (short_name o') \<and>
            short_name_to_name_of_option p (short_name o') = Some k)"
    and B: "\<And>s n. short_name_to_name_of_option p s = Some n \<Longrightarrow>
          \<exists>o'. map_of (all_options p) n = Some o' \<and> short_name o' = s"
    and C: "sorted_wrt (<) (map fst (all_options p))"
    by (auto simp: wf_schema_def)
  have 1: "sorted_wrt (<) (map fst (all_options p'))"
    using C sorted' by (simp add: sorted_smap_set)
  have 2: "is_long k \<and> (short_name o' = [] \<or> is_short (short_name o') \<and>
            short_name_to_name_of_option p' (short_name o') = Some k)"
    if "map_of (all_options p') k = Some o'" for k o'
  proof (cases "k = name")
    case True
    with that opts' have "o' = opt" by simp
    with True long sh short_opt shorts' show ?thesis by auto
  next
    case False
    with that opts' have old: "map_of (all_options p) k = Some o'" by simp
    from A [OF old] sh shorts' show ?thesis by (auto split: if_splits)
  qed
  have 3: "\<exists>o'. map_of (all_options p') n = Some o' \<and> short_name o' = s"
    if "short_name_to_name_of_option p' s = Some n" for s n
  proof (cases "short \<noteq> [] \<and> s = short")
    case True
    with that shorts' have "n = name" by simp
    with True opts' short_opt show ?thesis by simp
  next
    case False
    with that shorts' have old: "short_name_to_name_of_option p s = Some n"
      by (auto split: if_splits)
    from B [OF old] obtain o' where o': "map_of (all_options p) n = Some o'" "short_name o' = s"
      by blast
    with fresh have "n \<noteq> name" by auto
    with o' opts' show ?thesis by simp
  qed
  from assms rest have 4: "(\<forall>a \<in> set (all_arguments p'). VerifyName (arg_name a)) \<and>
     distinct (map arg_name (all_arguments p')) \<and>
     (have_argument_pack p' \<longleftrightarrow> (\<exists>a \<in> set (all_arguments p'). is_package a)) \<and>
     length (filter is_package (all_arguments p')) \<le> 1"
    by (simp add: wf_schema_def)
  from 1 2 3 4 have "wf_schema p'"
    unfolding wf_schema_def by blast
  then show ?thesis by (simp add: p'_def)
qed

subsection \<open>The scan appends the values of every occurrence\<close>

lemma scan_result:
  "aliases_closed opts shorts \<Longrightarrow> scan opts shorts toks ca co = Inr (ca', co', opts') \<Longrightarrow>
   map_of co' n = combine (map_of co n) (captured (occurrences opts shorts toks) n) \<and>
   (sorted_wrt (<) (map fst co) \<longrightarrow> sorted_wrt (<) (map fst co'))"
proof (induction toks arbitrary: ca co rule: length_induct)
  case (1 toks)
  show ?case
  proof (cases toks)
    case Nil
    with "1.prems" show ?thesis by (simp add: captured_def combine_def)
  next
    case (Cons str rest)
    let ?n = "option_of opts shorts str"
    let ?A = "value_count (smap_get Option_default opts ?n)"
    show ?thesis
    proof (cases "?n = []")
      case True
      with "1.prems" Cons have "scan opts shorts rest (ca @ [str]) co = Inr (ca', co', opts')"
        by (simp add: scan_Cons del: scan.simps)
      with "1.IH" "1.prems"(1) Cons True show ?thesis by auto
    next
      case False
      let ?co1 = "smap_set ?n (smap_get [] co ?n @ take ?A rest) (smap_touch [] ?n co)"
      from False "1.prems" Cons obtain vals rest' where
        tv: "take_values ?n (opt_only_number (smap_get Option_default opts ?n)) ?A 0 rest
             = Inr (vals, rest')"
        and sc: "scan opts shorts rest' ca
                  (smap_set ?n (smap_get [] co ?n @ vals) (smap_touch [] ?n co))
                 = Inr (ca', co', opts')"
        by (auto simp: scan_Cons simp del: scan.simps split: sum.splits prod.splits)
      from take_values_take_drop [OF tv] have vals: "vals = take ?A rest" "rest' = drop ?A rest"
        by simp_all
      from Cons vals have "length rest' < length toks" by simp
      with "1.IH" "1.prems"(1) sc vals
      have IH: "map_of co' n = combine (map_of ?co1 n) (captured (occurrences opts shorts (drop ?A rest)) n)"
        and IHs: "sorted_wrt (<) (map fst ?co1) \<longrightarrow> sorted_wrt (<) (map fst co')"
        by blast+
      have m: "map_of ?co1 = (map_of co)(?n \<mapsto> smap_get [] co ?n @ take ?A rest)"
        by (auto simp: map_of_smap_set smap_touch_def fun_eq_iff)
      have occ: "occurrences opts shorts toks
                 = (?n, take ?A rest) # occurrences opts shorts (drop ?A rest)"
        using False Cons by simp
      have "map_of co' n = combine (map_of co n) (captured (occurrences opts shorts toks) n)"
        unfolding IH m occ
        by (auto simp: combine_def captured_def smap_get_def split: option.splits)
      moreover have "sorted_wrt (<) (map fst co) \<longrightarrow> sorted_wrt (<) (map fst co')"
        using IHs by (simp add: sorted_smap_set sorted_smap_touch)
      ultimately show ?thesis by simp
    qed
  qed
qed

lemma tokens_of_result:
  assumes "aliases_closed (all_options p) (short_name_to_name_of_option p)"
    and "tokens_of p args = Inr (ca, co, opts)"
  shows "opts = all_options p"
    and "map_of co n = (if captured (occurrences (all_options p) (short_name_to_name_of_option p) args) n = []
                        then None
                        else Some (concat (captured (occurrences (all_options p) (short_name_to_name_of_option p) args) n)))"
    and "sorted_wrt (<) (map fst co)"
  using scan_opts [OF assms(1) assms(2) [unfolded tokens_of_def]]
    scan_result [OF assms(1) assms(2) [unfolded tokens_of_def], of n]
  by (simp_all add: combine_def)

lemma wf_closed: "wf_schema p \<Longrightarrow> aliases_closed (all_options p) (short_name_to_name_of_option p)"
  unfolding wf_schema_def aliases_closed_def smap_count_def by (metis option.distinct(1))

lemma tokens_of_cong [simp]:
  "tokens_of (p\<lparr>app_path := x, cur_values := y\<rparr>) args = tokens_of p args"
  by (simp add: tokens_of_def)

lemma Parse_Inr:
  assumes "Parse p argv = Inr p'"
  obtains path args ca co opts cv where
    "argv = path # args"
    "tokens_of p args = Inr (ca, co, opts)"
    "validate (have_argument_pack p) (all_arguments p) ca = Inr ()"
    "bind_arguments (have_argument_pack p) (all_arguments p) ca Map.empty = Inr cv"
    "p' = p\<lparr>app_path := path, cur_values := bind_options opts co cv, all_options := opts\<rparr>"
  using assms
  by (auto simp: Parse_def Let_def split: list.splits if_splits sum.splits prod.splits)

lemma wf_Parse:
  assumes "wf_schema p" "Parse p argv = Inr p'"
  shows "wf_schema p'"
proof -
  from assms(2) obtain path args ca co opts cv where
    t: "tokens_of p args = Inr (ca, co, opts)"
    and p': "p' = p\<lparr>app_path := path, cur_values := bind_options opts co cv, all_options := opts\<rparr>"
    by (rule Parse_Inr)
  from tokens_of_result(1) [OF wf_closed [OF assms(1)] t] have "opts = all_options p" .
  with assms(1) p' show ?thesis by (simp add: wf_schema_def)
qed

lemma reachable_wf: "reachable p \<Longrightarrow> wf_schema p"
  by (induction rule: reachable.induct)
     (simp_all add: wf_new wf_AddArgument wf_AddArgumentPack wf_AddOption wf_Parse)

subsection \<open>The second pass\<close>

lemma collect_pack_result:
  "collect_pack cur k j vals = Inr (vs, j') \<Longrightarrow>
   vs = vals @ take k (drop j cur) \<and> j' = j + k"
proof (induction k arbitrary: j vals)
  case 0
  then show ?case by simp
next
  case (Suc k)
  from Suc.prems have j: "j < length cur"
    and r: "collect_pack cur k (Suc j) (vals @ [cur ! j]) = Inr (vs, j')"
    by (auto split: if_splits)
  from Suc.IH [OF r] j show ?case
    by (simp add: Cons_nth_drop_Suc [symmetric])
qed

lemma second_pass_index_0 [simp]: "second_pass_index args pvc 0 = 0"
  by (simp add: second_pass_index_def)

lemma second_pass_index_Suc [simp]:
  "second_pass_index (a # as) pvc (Suc i) =
   (if is_package a then pvc else 1) + second_pass_index as pvc i"
  by (simp add: second_pass_index_def)

lemma bind_pack_result:
  "bind_pack as cur pvc j cv = Inr cv' \<Longrightarrow> distinct (map arg_name as) \<Longrightarrow>
   (\<forall>x. x \<notin> set (map arg_name as) \<longrightarrow> cv' x = cv x) \<and>
   (\<forall>i < length as. cv' (arg_name (as ! i)) =
      Some (if is_package (as ! i)
            then Value_multi (take pvc (drop (j + second_pass_index as pvc i) cur))
            else Value_single (cur ! (j + second_pass_index as pvc i))))"
proof (induction as arbitrary: j cv)
  case Nil
  then show ?case by simp
next
  case (Cons a as)
  define j1 where "j1 = j + (if is_package a then pvc else 1)"
  define v where "v = (if is_package a then Value_multi (take pvc (drop j cur))
                       else Value_single (cur ! j))"
  from Cons.prems(1) have r: "bind_pack as cur pvc j1 (cv(arg_name a \<mapsto> v)) = Inr cv'"
    by (auto simp: j1_def v_def split: if_splits sum.splits prod.splits
        dest!: collect_pack_result)
  from Cons.prems(2) have d: "distinct (map arg_name as)" and na: "arg_name a \<notin> set (map arg_name as)"
    by simp_all
  from Cons.IH [OF r d] have
    keep: "\<And>x. x \<notin> set (map arg_name as) \<Longrightarrow> cv' x = (cv(arg_name a \<mapsto> v)) x"
    and bound: "\<And>i. i < length as \<Longrightarrow> cv' (arg_name (as ! i)) =
      Some (if is_package (as ! i)
            then Value_multi (take pvc (drop (j1 + second_pass_index as pvc i) cur))
            else Value_single (cur ! (j1 + second_pass_index as pvc i)))"
    by blast+
  have 1: "\<forall>x. x \<notin> set (map arg_name (a # as)) \<longrightarrow> cv' x = cv x"
    using keep by auto
  have 2: "cv' (arg_name ((a # as) ! i)) =
      Some (if is_package ((a # as) ! i)
            then Value_multi (take pvc (drop (j + second_pass_index (a # as) pvc i) cur))
            else Value_single (cur ! (j + second_pass_index (a # as) pvc i)))"
    if "i < length (a # as)" for i
  proof (cases i)
    case 0
    with keep [OF na] show ?thesis by (simp add: v_def)
  next
    case (Suc i')
    with that bound [of i'] show ?thesis by (simp add: j1_def add.assoc)
  qed
  from 1 2 show ?case by blast
qed

lemma second_pass_index_plain:
  "\<forall>a \<in> set args. \<not> is_package a \<Longrightarrow> i \<le> length args \<Longrightarrow> second_pass_index args pvc i = i"
proof (induction args arbitrary: i)
  case Nil
  then show ?case by simp
next
  case (Cons a args)
  then show ?case by (cases i) simp_all
qed

lemma pack_position_Cons [simp]:
  "pack_position (a # as) = (if is_package a then 0 else Suc (pack_position as))"
  by (simp add: pack_position_def)

lemma second_pass_index_one_pack:
  "length (filter is_package args) \<le> 1 \<Longrightarrow> i \<le> length args \<Longrightarrow>
   second_pass_index args pvc i = (if i \<le> pack_position args then i else i - 1 + pvc)"
proof (induction args arbitrary: i)
  case Nil
  then show ?case by simp
next
  case (Cons a args)
  show ?case
  proof (cases i)
    case 0
    then show ?thesis by simp
  next
    case (Suc i')
    show ?thesis
    proof (cases "is_package a")
      case True
      with Cons.prems have "\<forall>a \<in> set args. \<not> is_package a"
        by (simp add: filter_empty_conv)
      with Cons.prems Suc True show ?thesis
        by (simp add: second_pass_index_plain)
    next
      case False
      with Cons Suc show ?thesis by (cases i') auto
    qed
  qed
qed

lemma pack_position_less:
  "\<exists>a \<in> set args. is_package a \<Longrightarrow>
   pack_position args < length args \<and> is_package (args ! pack_position args)"
  by (induction args) auto

lemma pack_position_unique:
  "length (filter is_package args) \<le> 1 \<Longrightarrow> i < length args \<Longrightarrow> is_package (args ! i) \<Longrightarrow>
   i = pack_position args"
proof (induction args arbitrary: i)
  case Nil
  then show ?case by simp
next
  case (Cons a args)
  show ?case
  proof (cases "is_package a")
    case True
    with Cons.prems have "\<forall>a \<in> set args. \<not> is_package a"
      by (simp add: filter_empty_conv)
    with Cons.prems True show ?thesis by (cases i) auto
  next
    case False
    with Cons show ?thesis by (cases i) auto
  qed
qed

lemma bind_plain_result:
  "bind_plain args cs i cv = Inr cv' \<Longrightarrow> distinct (map arg_name args) \<Longrightarrow>
   (\<forall>x. x \<notin> set (map arg_name args) \<longrightarrow> cv' x = cv x) \<and>
   (\<forall>m < i. cv' (arg_name (args ! m)) = cv (arg_name (args ! m))) \<and>
   (\<forall>m < length cs. cv' (arg_name (args ! (i + m))) = Some (Value_single (cs ! m)))"
proof (induction cs arbitrary: i cv)
  case Nil
  then show ?case by simp
next
  case (Cons c cs)
  from Cons.prems(1) have i: "i < length args"
    and r: "bind_plain args cs (Suc i) (cv(arg_name (args ! i) \<mapsto> Value_single c)) = Inr cv'"
    by (auto split: if_splits)
  note IH = Cons.IH [OF r Cons.prems(2)]
  have neq: "arg_name (args ! m) \<noteq> arg_name (args ! i)" if "m < i" for m
    using that i Cons.prems(2) nth_eq_iff_index_eq [of "map arg_name args" m i] by simp
  have 1: "\<forall>x. x \<notin> set (map arg_name args) \<longrightarrow> cv' x = cv x"
    using IH i by auto
  have 2: "\<forall>m < i. cv' (arg_name (args ! m)) = cv (arg_name (args ! m))"
    using IH neq by (simp add: less_Suc_eq)
  have 3: "cv' (arg_name (args ! (i + m))) = Some (Value_single ((c # cs) ! m))"
    if "m < length (c # cs)" for m
  proof (cases m)
    case 0
    with IH show ?thesis by simp
  next
    case (Suc m')
    with that IH show ?thesis by simp
  qed
  from 1 2 3 IH show ?case by simp
qed

subsection \<open>The loop over the matched options\<close>

lemma bind_options_other:
  "\<forall>e \<in> set co. fst e \<noteq> x \<and> short_name (smap_get Option_default opts (fst e)) \<noteq> x \<Longrightarrow>
   bind_options opts co cv x = cv x"
  by (induction co arbitrary: cv) (auto simp: Let_def)

lemma bind_options_long:
  "distinct (map fst co) \<Longrightarrow> map_of co n = Some vs \<Longrightarrow>
   \<forall>e \<in> set co. short_name (smap_get Option_default opts (fst e)) \<noteq> n \<Longrightarrow>
   bind_options opts co cv n = Some (Value_multi vs)"
proof (induction co arbitrary: cv)
  case Nil
  then show ?case by simp
next
  case (Cons e co)
  obtain m ws where e: "e = (m, ws)" by (cases e)
  show ?case
  proof (cases "m = n")
    case True
    with Cons.prems e have "\<forall>e \<in> set co. fst e \<noteq> n \<and> short_name (smap_get Option_default opts (fst e)) \<noteq> n"
      by auto
    from bind_options_other [OF this] Cons.prems e True show ?thesis
      by (simp add: Let_def)
  next
    case False
    with Cons e show ?thesis by (simp add: Let_def)
  qed
qed

lemma bind_options_short:
  "distinct (map fst co) \<Longrightarrow> map_of co n = Some vs \<Longrightarrow>
   short_name (smap_get Option_default opts n) = s \<Longrightarrow> s \<noteq> [] \<Longrightarrow>
   \<forall>e \<in> set co. fst e \<noteq> s \<and> (short_name (smap_get Option_default opts (fst e)) = s \<longrightarrow> fst e = n) \<Longrightarrow>
   bind_options opts co cv s = Some (Value_multi vs)"
proof (induction co arbitrary: cv)
  case Nil
  then show ?case by simp
next
  case (Cons e co)
  obtain m ws where e: "e = (m, ws)" by (cases e)
  from Cons.prems(1) e have d: "distinct (map fst co)" and fresh: "m \<notin> fst ` set co" by auto
  show ?case
  proof (cases "m = n")
    case True
    with Cons.prems(2) e have ws: "ws = vs" by simp
    have "\<forall>e \<in> set co. fst e \<noteq> s \<and> short_name (smap_get Option_default opts (fst e)) \<noteq> s"
    proof
      fix e' assume e': "e' \<in> set co"
      with fresh True have "fst e' \<noteq> n" by force
      with Cons.prems(5) e' show "fst e' \<noteq> s \<and> short_name (smap_get Option_default opts (fst e')) \<noteq> s"
        by auto
    qed
    from bind_options_other [OF this]
    have "bind_options opts co (cv(n \<mapsto> Value_multi vs, s \<mapsto> Value_multi vs)) s = Some (Value_multi vs)"
      by simp
    with True ws e Cons.prems(3,4) show ?thesis by (simp add: Let_def)
  next
    case False
    with Cons.prems(2) e have 2: "map_of co n = Some vs" by simp
    from Cons.prems(5) have 5: "\<forall>e \<in> set co. fst e \<noteq> s \<and>
        (short_name (smap_get Option_default opts (fst e)) = s \<longrightarrow> fst e = n)"
      by simp
    note IH = Cons.IH [OF d 2 Cons.prems(3,4) 5]
    from e show ?thesis by (simp add: Let_def IH)
  qed
qed

lemma occurrences_names:
  "aliases_closed opts shorts \<Longrightarrow> e \<in> set (occurrences opts shorts toks) \<Longrightarrow>
   smap_count opts (fst e)"
proof (induction opts shorts toks rule: occurrences.induct)
  case (1 opts shorts)
  then show ?case by simp
next
  case (2 opts shorts str rest)
  then show ?case
    by (auto simp: option_of_closed split: if_splits)
qed

lemma occurrences_arity:
  "e \<in> set (occurrences opts shorts toks) \<Longrightarrow>
   length (snd e) \<le> value_count (smap_get Option_default opts (fst e))"
proof (induction opts shorts toks rule: occurrences.induct)
  case (1 opts shorts)
  then show ?case by simp
next
  case (2 opts shorts str rest)
  then show ?case
    by (auto split: if_splits)
qed

lemma captured_empty_iff: "captured occs n = [] \<longleftrightarrow> n \<notin> fst ` set occs"
  by (auto simp: captured_def filter_empty_conv image_iff)

lemma wf_option:
  assumes "wf_schema p" "smap_count (all_options p) m"
  shows "is_long m"
    and "short_name (smap_get Option_default (all_options p) m) = [] \<or>
         is_short (short_name (smap_get Option_default (all_options p) m)) \<and>
         short_name_to_name_of_option p (short_name (smap_get Option_default (all_options p) m)) = Some m"
proof -
  from assms(2) obtain opt where o: "map_of (all_options p) m = Some opt"
    by (auto simp: smap_count_def)
  then have g: "smap_get Option_default (all_options p) m = opt"
    by (simp add: smap_get_def)
  from assms(1) o show "is_long m" unfolding wf_schema_def by blast
  from assms(1) o show "short_name (smap_get Option_default (all_options p) m) = [] \<or>
         is_short (short_name (smap_get Option_default (all_options p) m)) \<and>
         short_name_to_name_of_option p (short_name (smap_get Option_default (all_options p) m)) = Some m"
    unfolding wf_schema_def g by blast
qed

lemma wf_argument:
  assumes "wf_schema p" "a \<in> set (all_arguments p)"
  shows "VerifyName (arg_name a)"
  using assms unfolding wf_schema_def by blast

text \<open>What the last loop leaves alone, and what it binds.\<close>

lemma tokens_of_keys:
  assumes "wf_schema p" "tokens_of p args = Inr (ca, co, opts)" "e \<in> set co"
  shows "smap_count (all_options p) (fst e)"
proof -
  note cl = wf_closed [OF assms(1)]
  from tokens_of_result(3) [OF cl assms(2)] have "distinct (map fst co)"
    by (rule sorted_distinct_keys)
  with assms(3) have "map_of co (fst e) = Some (snd e)" by simp
  with tokens_of_result(2) [OF cl assms(2), of "fst e"]
  have "fst e \<in> fst ` set (occurrences (all_options p) (short_name_to_name_of_option p) args)"
    by (auto simp: captured_empty_iff split: if_splits)
  with occurrences_names [OF cl] show ?thesis by auto
qed

lemma bind_options_argument:
  assumes "wf_schema p" "tokens_of p args = Inr (ca, co, opts)" "a \<in> set (all_arguments p)"
  shows "bind_options (all_options p) co cv (arg_name a) = cv (arg_name a)"
proof (rule bind_options_other, rule ballI)
  fix e assume e: "e \<in> set co"
  note k = tokens_of_keys [OF assms(1,2) e]
  note v = wf_argument [OF assms(1,3)]
  from wf_option [OF assms(1) k] v
  show "fst e \<noteq> arg_name a \<and>
        short_name (smap_get Option_default (all_options p) (fst e)) \<noteq> arg_name a"
    using name_not_long name_not_short VerifyName_hd by metis
qed

subsection \<open>What a returning Parse has bound\<close>

lemma size_t_sub_simp [simp]: "b \<le> a \<Longrightarrow> size_t_sub a b = a - b"
  by (simp add: size_t_sub_def)

lemma validate_pack_positive:
  "validate_pack as cur pvc j = Inr u \<Longrightarrow> \<exists>a \<in> set as. is_package a \<Longrightarrow> 0 < pvc"
proof (induction as arbitrary: j)
  case Nil
  then show ?case by simp
next
  case (Cons a as)
  then show ?case
    by (cases "is_package a") (auto split: if_splits sum.splits)
qed

lemma validate_counts:
  assumes "wf_schema p" "validate (have_argument_pack p) (all_arguments p) ca = Inr u"
  shows "if have_argument_pack p then length (all_arguments p) \<le> length ca
         else length ca = length (all_arguments p)"
proof (cases "have_argument_pack p")
  case False
  with assms(2) show ?thesis by (simp add: validate_def split: if_splits)
next
  case True
  with assms(1) have ex: "\<exists>a \<in> set (all_arguments p). is_package a"
    by (simp add: wf_schema_def)
  then have D: "1 \<le> length (all_arguments p)"
    by (cases "all_arguments p") auto
  with True assms(2) have ge: "length (all_arguments p) - 1 \<le> length ca"
    and vp: "validate_pack (all_arguments p) ca
               (size_t_sub (length ca + 1) (length (all_arguments p))) 0 = Inr u"
    by (auto simp: validate_def split: if_splits)
  from ge D have "length (all_arguments p) \<le> length ca + 1" by simp
  with validate_pack_positive [OF vp ex] have "0 < length ca + 1 - length (all_arguments p)"
    by simp
  with True show ?thesis by simp
qed

lemma pack_position_plain:
  "\<forall>a \<in> set args. \<not> is_package a \<Longrightarrow> pack_position args = length args"
  by (induction args) (simp_all add: pack_position_def)

text \<open>The value that a returning Parse leaves under the name of each Argument.\<close>

lemma Parse_argument:
  assumes wf: "wf_schema p"
    and parse: "Parse p (path # args) = Inr p'"
    and toks: "tokens_of p args = Inr (ca, co, opts)"
    and i: "i < length (all_arguments p)"
  shows "cur_values p' (arg_name (all_arguments p ! i)) =
     Some (if is_package (all_arguments p ! i)
           then Value_multi (take (length ca + 1 - length (all_arguments p))
                  (drop (token_index (all_arguments p) (length ca) i) ca))
           else Value_single (ca ! token_index (all_arguments p) (length ca) i))"
proof -
  let ?args = "all_arguments p"
  let ?D = "length ?args"
  let ?P = "length ca"
  from parse toks obtain cv where
    val: "validate (have_argument_pack p) ?args ca = Inr ()"
    and bind: "bind_arguments (have_argument_pack p) ?args ca Map.empty = Inr cv"
    and p': "p' = p\<lparr>app_path := path, cur_values := bind_options opts co cv, all_options := opts\<rparr>"
    by (auto elim!: Parse_Inr)
  from tokens_of_result(1) [OF wf_closed [OF wf] toks] have opts: "opts = all_options p" .
  from i have mem: "?args ! i \<in> set ?args" by simp
  from p' opts bind_options_argument [OF wf toks mem]
  have cur: "cur_values p' (arg_name (?args ! i)) = cv (arg_name (?args ! i))" by simp
  from wf have dist: "distinct (map arg_name ?args)"
    and one: "length (filter is_package ?args) \<le> 1"
    and flag: "have_argument_pack p \<longleftrightarrow> (\<exists>a \<in> set ?args. is_package a)"
    by (simp_all add: wf_schema_def)
  note counts = validate_counts [OF wf val]
  show ?thesis
  proof (cases "have_argument_pack p")
    case True
    with counts have le: "?D \<le> ?P" by simp
    from True bind le have b: "bind_pack ?args ca (?P + 1 - ?D) 0 cv0 = Inr cv" if "cv0 = Map.empty" for cv0
      using that by (simp add: bind_arguments_def)
    from bind_pack_result [OF b [OF refl] dist] i
    have v: "cv (arg_name (?args ! i)) =
      Some (if is_package (?args ! i)
            then Value_multi (take (?P + 1 - ?D) (drop (second_pass_index ?args (?P + 1 - ?D) i) ca))
            else Value_single (ca ! second_pass_index ?args (?P + 1 - ?D) i))"
      by simp
    from i have "i \<le> ?D" by simp
    from second_pass_index_one_pack [OF one this, of "?P + 1 - ?D"] le i
    have "second_pass_index ?args (?P + 1 - ?D) i = token_index ?args ?P i"
      by (auto simp: token_index_def)
    with v cur show ?thesis by simp
  next
    case False
    with flag have plain: "\<forall>a \<in> set ?args. \<not> is_package a" by simp
    from False counts have eq: "?P = ?D" by simp
    from False bind have b: "bind_plain ?args ca 0 Map.empty = Inr cv"
      by (simp add: bind_arguments_def)
    from bind_plain_result [OF b dist] i eq
    have "cv (arg_name (?args ! i)) = Some (Value_single (ca ! i))" by simp
    moreover from i have "token_index ?args ?P i = i"
      by (simp add: token_index_def pack_position_plain [OF plain])
    moreover from plain mem have "\<not> is_package (?args ! i)" by blast
    ultimately show ?thesis using cur by simp
  qed
qed

lemma Parse_option:
  assumes wf: "wf_schema p"
    and parse: "Parse p (path # args) = Inr p'"
    and matched: "n \<in> fst ` set (occurrences (all_options p) (short_name_to_name_of_option p) args)"
  shows "cur_values p' n =
           Some (Value_multi (concat (captured
             (occurrences (all_options p) (short_name_to_name_of_option p) args) n)))"
    and "short_name (smap_get Option_default (all_options p) n) \<noteq> [] \<Longrightarrow>
         cur_values p' (short_name (smap_get Option_default (all_options p) n)) =
           Some (Value_multi (concat (captured
             (occurrences (all_options p) (short_name_to_name_of_option p) args) n)))"
proof -
  let ?occs = "occurrences (all_options p) (short_name_to_name_of_option p) args"
  let ?get = "\<lambda>m. short_name (smap_get Option_default (all_options p) m)"
  from parse obtain ca co opts cv where
    toks: "tokens_of p args = Inr (ca, co, opts)"
    and p': "p' = p\<lparr>app_path := path, cur_values := bind_options opts co cv, all_options := opts\<rparr>"
    by (auto elim!: Parse_Inr)
  note cl = wf_closed [OF wf]
  from tokens_of_result(1) [OF cl toks] have opts: "opts = all_options p" .
  from tokens_of_result(3) [OF cl toks] have dist: "distinct (map fst co)"
    by (rule sorted_distinct_keys)
  from tokens_of_result(2) [OF cl toks, of n] matched
  have co: "map_of co n = Some (concat (captured ?occs n))"
    by (simp add: captured_empty_iff)
  from matched occurrences_names [OF cl] have reg: "smap_count (all_options p) n" by auto
  note n = wf_option [OF wf reg]
  have keys: "is_long (fst e) \<and> (?get (fst e) = [] \<or> is_short (?get (fst e)) \<and>
                short_name_to_name_of_option p (?get (fst e)) = Some (fst e))"
    if "e \<in> set co" for e
    using wf_option [OF wf tokens_of_keys [OF wf toks that]] by simp
  have "\<forall>e \<in> set co. ?get (fst e) \<noteq> n"
  proof
    fix e assume "e \<in> set co"
    from keys [OF this] n(1) show "?get (fst e) \<noteq> n"
      using long_not_short by (metis is_long_def list.size(3) not_numeral_le_zero)
  qed
  from bind_options_long [OF dist co this] p' opts
  show "cur_values p' n = Some (Value_multi (concat (captured ?occs n)))" by simp
  assume s: "?get n \<noteq> []"
  have "\<forall>e \<in> set co. fst e \<noteq> ?get n \<and> (?get (fst e) = ?get n \<longrightarrow> fst e = n)"
  proof
    fix e assume "e \<in> set co"
    from keys [OF this] n s show "fst e \<noteq> ?get n \<and> (?get (fst e) = ?get n \<longrightarrow> fst e = n)"
      using long_not_short by (metis option.inject)
  qed
  from bind_options_short [OF dist co refl s this] p' opts
  show "cur_values p' (?get n) = Some (Value_multi (concat (captured ?occs n)))" by simp
qed

lemma bind_arguments_other:
  assumes "bind_arguments hp as cur cv = Inr cv'" "distinct (map arg_name as)"
    "x \<notin> set (map arg_name as)"
  shows "cv' x = cv x"
  using assms bind_pack_result [of as cur _ 0 cv cv'] bind_plain_result [of as cur 0 cv cv']
  by (auto simp: bind_arguments_def split: if_splits)

lemma Parse_unmatched:
  assumes wf: "wf_schema p"
    and parse: "Parse p (path # args) = Inr p'"
    and reg: "smap_count (all_options p) n"
    and unmatched: "n \<notin> fst ` set (occurrences (all_options p) (short_name_to_name_of_option p) args)"
  shows "cur_values p' n = None"
proof -
  let ?get = "\<lambda>m. short_name (smap_get Option_default (all_options p) m)"
  from parse obtain ca co opts cv where
    toks: "tokens_of p args = Inr (ca, co, opts)"
    and bind: "bind_arguments (have_argument_pack p) (all_arguments p) ca Map.empty = Inr cv"
    and p': "p' = p\<lparr>app_path := path, cur_values := bind_options opts co cv, all_options := opts\<rparr>"
    by (auto elim!: Parse_Inr)
  note cl = wf_closed [OF wf]
  from tokens_of_result(1) [OF cl toks] have opts: "opts = all_options p" .
  from tokens_of_result(2) [OF cl toks, of n] unmatched
  have co: "map_of co n = None" by (simp add: captured_empty_iff)
  note n = wf_option(1) [OF wf reg]
  have "\<forall>e \<in> set co. fst e \<noteq> n \<and> ?get (fst e) \<noteq> n"
  proof
    fix e assume e: "e \<in> set co"
    with co have "fst e \<noteq> n" by (auto simp: map_of_eq_None_iff)
    moreover from wf_option [OF wf tokens_of_keys [OF wf toks e]] n have "?get (fst e) \<noteq> n"
      using long_not_short by (metis is_long_def list.size(3) not_numeral_le_zero)
    ultimately show "fst e \<noteq> n \<and> ?get (fst e) \<noteq> n" by simp
  qed
  from bind_options_other [OF this] p' opts have "cur_values p' n = cv n" by simp
  moreover have "n \<notin> set (map arg_name (all_arguments p))"
    using wf_argument [OF wf] name_not_long n by auto
  moreover from wf have "distinct (map arg_name (all_arguments p))" by (simp add: wf_schema_def)
  ultimately show ?thesis using bind_arguments_other [OF bind] by simp
qed

lemma tokens_of_matched:
  assumes "wf_schema p" "tokens_of p args = Inr (ca, co, opts)"
  shows "n \<in> fst ` set co \<longleftrightarrow>
         n \<in> fst ` set (occurrences (all_options p) (short_name_to_name_of_option p) args)"
proof -
  have "n \<in> fst ` set co \<longleftrightarrow> map_of co n \<noteq> None"
    by (simp add: map_of_eq_None_iff)
  also have "\<dots> \<longleftrightarrow>
      captured (occurrences (all_options p) (short_name_to_name_of_option p) args) n \<noteq> []"
    using tokens_of_result(2) [OF wf_closed [OF assms(1)] assms(2), of n] by simp
  also have "\<dots> \<longleftrightarrow>
      n \<in> fst ` set (occurrences (all_options p) (short_name_to_name_of_option p) args)"
    by (simp add: captured_empty_iff)
  finally show ?thesis .
qed

lemma captured_zero_arity:
  assumes "value_count (smap_get Option_default opts n) = 0"
  shows "concat (captured (occurrences opts shorts toks) n) = []"
proof -
  have "w = []" if "w \<in> set (captured (occurrences opts shorts toks) n)" for w
  proof -
    from that obtain e where "e \<in> set (occurrences opts shorts toks)" "fst e = n" "snd e = w"
      by (auto simp: captured_def)
    with occurrences_arity [of e opts shorts toks] assms show ?thesis by simp
  qed
  then show ?thesis by (simp add: concat_eq_Nil_conv)
qed

lemma validate_pack_zero:
  "\<exists>a \<in> set as. is_package a \<Longrightarrow> j + pack_position as \<le> length cur \<Longrightarrow>
   \<exists>d. validate_pack as cur 0 j = Inl (Exit_failure d)"
proof (induction as arbitrary: j)
  case Nil
  then show ?case by simp
next
  case (Cons a as)
  show ?case
  proof (cases "is_package a")
    case True
    then show ?thesis by simp
  next
    case False
    with Cons.prems have ex: "\<exists>a \<in> set as. is_package a"
      and le: "Suc j + pack_position as \<le> length cur"
      by auto
    from Cons.IH [OF ex le] False le show ?thesis by auto
  qed
qed

lemma Parse_not_shortcut:
  assumes "\<forall>t. Parse p (path # args) \<noteq> Inl (Exit_0 t)"
    and "tokens_of p args = Inr (ca, co, opts)"
  shows "Parse p (path # args) =
     (case validate (have_argument_pack p) (all_arguments p) ca of
        Inl e \<Rightarrow> Inl e
      | Inr u \<Rightarrow>
          (case bind_arguments (have_argument_pack p) (all_arguments p) ca Map.empty of
             Inl e \<Rightarrow> Inl e
           | Inr cv \<Rightarrow>
               Inr (p\<lparr>app_path := path, cur_values := bind_options opts co cv,
                      all_options := opts\<rparr>)))"
  using assms
  by (auto simp: Parse_def Let_def split: if_splits sum.splits)

lemma tokens_of_single_option:
  assumes "smap_count (all_options p) str" "str \<noteq> []"
  shows "tokens_of p [str] =
     (if value_count (smap_get Option_default (all_options p) str) = 0
      then Inr ([], [(str, [])], all_options p)
      else Inl (Exit_failure (OptionValueCount str
                 (value_count (smap_get Option_default (all_options p) str)) 0)))"
  using assms
  by (simp add: tokens_of_def smap_touch_def Let_def take_values.simps [of _ _ _ _ "[]"]
      smap_count_def smap_get_def)


text \<open>Only the two shortcuts end the process with status 0.\<close>

lemma take_values_no_exit_0: "take_values n b c j rest \<noteq> Inl (Exit_0 t)"
proof (induction rest arbitrary: j)
  case Nil
  show ?case by (simp add: take_values.simps [of _ _ _ _ "[]"])
next
  case (Cons a rest)
  from Cons [of "Suc j"] show ?case
    by (auto simp: take_values.simps [of _ _ _ _ "a # rest"] split: sum.splits)
qed

lemma scan_no_exit_0: "scan opts shorts toks ca co \<noteq> Inl (Exit_0 t)"
proof (induction opts shorts toks ca co rule: scan.induct)
  case (1 opts shorts cur_arguments cur_options)
  show ?case by simp
next
  case (2 opts shorts str rest cur_arguments cur_options)
  then show ?case
    by (auto simp: Let_def take_values_no_exit_0 split: sum.splits prod.splits)
qed

lemma check_pack_tokens_no_exit_0: "check_pack_tokens a cur k j \<noteq> Inl (Exit_0 t)"
  by (induction k arbitrary: j) auto

lemma validate_pack_no_exit_0: "validate_pack as cur pvc j \<noteq> Inl (Exit_0 t)"
  by (induction as arbitrary: j) (auto simp: check_pack_tokens_no_exit_0 split: sum.splits)

lemma validate_plain_no_exit_0: "validate_plain as cur i \<noteq> Inl (Exit_0 t)"
  by (induction as arbitrary: i) auto

lemma validate_no_exit_0: "validate hp as cur \<noteq> Inl (Exit_0 t)"
  by (simp add: validate_def validate_pack_no_exit_0 validate_plain_no_exit_0)

lemma collect_pack_no_exit_0: "collect_pack cur k j vals \<noteq> Inl (Exit_0 t)"
  by (induction k arbitrary: j vals) auto

lemma bind_pack_no_exit_0: "bind_pack as cur pvc j cv \<noteq> Inl (Exit_0 t)"
  by (induction as arbitrary: j cv) (auto simp: collect_pack_no_exit_0 split: sum.splits)

lemma bind_plain_no_exit_0: "bind_plain as cur i cv \<noteq> Inl (Exit_0 t)"
  by (induction cur arbitrary: i cv) auto

lemma bind_arguments_no_exit_0: "bind_arguments hp as cur cv \<noteq> Inl (Exit_0 t)"
  by (simp add: bind_arguments_def bind_pack_no_exit_0 bind_plain_no_exit_0)

lemma tokens_of_no_exit_0: "tokens_of p args \<noteq> Inl (Exit_0 t)"
  by (simp add: tokens_of_def scan_no_exit_0)

subsection \<open>The number checks\<close>

lemma take_values_passes:
  "(\<exists>vals rest'. take_values n b c j rest = Inr (vals, rest')) \<longleftrightarrow>
   c - j \<le> length rest \<and> (b \<longrightarrow> (\<forall>t \<in> set (take (c - j) rest). \<not> stoi_throws t))"
proof (induction rest arbitrary: j)
  case Nil
  show ?case by (auto simp: take_values.simps [of _ _ _ _ "[]"])
next
  case (Cons a rest)
  show ?case
  proof (cases "j < c")
    case False
    then show ?thesis by (simp add: take_values.simps [of _ _ _ _ "a # rest"])
  next
    case True
    then have c: "c - j = Suc (c - Suc j)" by simp
    show ?thesis
      unfolding c using True Cons [of "Suc j"]
      by (auto simp: take_values.simps [of _ _ _ j "a # rest"] split: sum.splits)
  qed
qed

lemma take_values_fails:
  "(\<exists>vals rest'. take_values n b c j rest = Inr (vals, rest')) \<or>
   (\<exists>d. take_values n b c j rest = Inl (Exit_failure d))"
proof (induction rest arbitrary: j)
  case Nil
  show ?case by (auto simp: take_values.simps [of _ _ _ _ "[]"])
next
  case (Cons a rest)
  from Cons [of "Suc j"] show ?case
    by (auto simp: take_values.simps [of _ _ _ j "a # rest"] split: sum.splits)
qed

lemma validate_plain_passes:
  "validate_plain as cur i = Inr () \<longleftrightarrow>
   (\<forall>m < length as. arg_only_number (as ! m) \<longrightarrow>
      i + m < length cur \<and> \<not> stoi_throws (cur ! (i + m)))"
proof (induction as arbitrary: i)
  case Nil
  show ?case by simp
next
  case (Cons a as)
  have split: "(\<forall>m < Suc (length as). P m) \<longleftrightarrow> P 0 \<and> (\<forall>m < length as. P (Suc m))" for P
    by (metis less_Suc_eq_0_disj)
  show ?case
    by (simp add: Cons [of "Suc i"] split)
qed

lemma check_pack_tokens_passes:
  "j + k \<le> length cur \<Longrightarrow>
   (\<exists>j'. check_pack_tokens a cur k j = Inr j') \<longleftrightarrow>
   (arg_only_number a \<longrightarrow> (\<forall>t \<in> set (take k (drop j cur)). \<not> stoi_throws t))"
proof (induction k arbitrary: j)
  case 0
  show ?case by simp
next
  case (Suc k)
  then have j: "j < length cur" and le: "Suc j + k \<le> length cur" by simp_all
  from j have t: "take (Suc k) (drop j cur) = cur ! j # take k (drop (Suc j) cur)"
    by (simp add: Cons_nth_drop_Suc [symmetric])
  from Suc.IH [OF le] j show ?case
    unfolding t by auto
qed

lemma takeWhile_append_stop:
  "takeWhile P ys = [] \<Longrightarrow> takeWhile P (xs @ ys) = takeWhile P xs"
  by (induction xs) simp_all

lemma stoi_suffix:
  assumes "\<not> stoi_throws str" "rest = [] \<or> \<not> isdigit (hd rest)"
  shows "stoi (str @ rest) = stoi str"
proof -
  define s where "s = dropWhile isspace str"
  define body where "body = (if s \<noteq> [] \<and> (hd s = CHR ''-'' \<or> hd s = CHR ''+'') then tl s else s)"
  from assms(1) have d: "takeWhile isdigit body \<noteq> []"
    by (auto simp: stoi_throws_def stoi_def Let_def s_def body_def split: if_splits)
  then have ne: "s \<noteq> []" by (auto simp: body_def split: if_splits)
  then obtain x where "x \<in> set str" "\<not> isspace x"
    unfolding s_def by (metis dropWhile_eq_Nil_conv)
  then have s': "dropWhile isspace (str @ rest) = s @ rest"
    unfolding s_def by (rule dropWhile_append1)
  from ne have hd: "hd (s @ rest) = hd s" and tl: "tl (s @ rest) = tl s @ rest"
    by simp_all
  from assms(2) have stop: "takeWhile isdigit rest = []"
    by (cases rest) auto
  have body': "(if s @ rest \<noteq> [] \<and> (hd (s @ rest) = CHR ''-'' \<or> hd (s @ rest) = CHR ''+'')
                then tl (s @ rest) else s @ rest) = body @ rest"
    using ne by (simp add: body_def)
  have dg: "takeWhile isdigit (body @ rest) = takeWhile isdigit body"
    using stop by (rule takeWhile_append_stop)
  define G where "G ne h ds =
     (if ds = [] then Inl invalid_argument
      else if (if ne \<and> h = CHR ''-'' then - decimal 0 ds else decimal 0 ds) < - 2147483648 \<or>
              2147483647 < (if ne \<and> h = CHR ''-'' then - decimal 0 ds else decimal 0 ds)
        then Inl out_of_range
        else Inr (if ne \<and> h = CHR ''-'' then - decimal 0 ds else decimal 0 ds))"
    for ne :: bool and h :: char and ds :: string
  have stoi_G: "stoi x = G (dropWhile isspace x \<noteq> []) (hd (dropWhile isspace x))
      (takeWhile isdigit
        (if dropWhile isspace x \<noteq> [] \<and>
            (hd (dropWhile isspace x) = CHR ''-'' \<or> hd (dropWhile isspace x) = CHR ''+'')
         then tl (dropWhile isspace x) else dropWhile isspace x))" for x
    by (simp add: stoi_def G_def Let_def)
  have "stoi (str @ rest) = G (s @ rest \<noteq> []) (hd (s @ rest)) (takeWhile isdigit (body @ rest))"
    unfolding stoi_G s' body' ..
  also have "\<dots> = G (s \<noteq> []) (hd s) (takeWhile isdigit body)"
    using ne by (simp only: dg hd) simp
  also have "\<dots> = stoi str"
    unfolding stoi_G s_def [symmetric] body_def ..
  finally show ?thesis .
qed

lemma check_pack_tokens_no_numbers:
  "\<not> arg_only_number a \<Longrightarrow> check_pack_tokens a cur k j = Inr (j + k)"
  by (induction k arbitrary: j) simp_all

lemma validate_pack_no_numbers:
  "\<forall>a \<in> set as. \<not> arg_only_number a \<Longrightarrow> 0 < pvc \<Longrightarrow> validate_pack as cur pvc j = Inr ()"
  by (induction as arbitrary: j) (simp_all add: check_pack_tokens_no_numbers)

lemma collect_pack_in_range:
  "j + k \<le> length cur \<Longrightarrow> \<exists>vs. collect_pack cur k j vals = Inr (vs, j + k)"
proof (induction k arbitrary: j vals)
  case 0
  show ?case by simp
next
  case (Suc k)
  then have "Suc j + k \<le> length cur" "j < length cur" by simp_all
  with Suc.IH [of "Suc j" "vals @ [cur ! j]"] show ?case by simp
qed

lemma second_pass_index_Cons_length:
  "second_pass_index (a # as) pvc (length (a # as)) =
   (if is_package a then pvc else 1) + second_pass_index as pvc (length as)"
  by simp

lemma bind_pack_in_range:
  "j + second_pass_index as pvc (length as) \<le> length cur \<Longrightarrow>
   \<exists>cv'. bind_pack as cur pvc j cv = Inr cv'"
proof (induction as arbitrary: j cv)
  case Nil
  show ?case by simp
next
  case (Cons a as)
  show ?case
  proof (cases "is_package a")
    case True
    with Cons.prems have le: "(j + pvc) + second_pass_index as pvc (length as) \<le> length cur"
      by (simp add: add.assoc)
    then have "j + pvc \<le> length cur" by simp
    from collect_pack_in_range [OF this, of "[]"] obtain vs where
      c: "collect_pack cur pvc j [] = Inr (vs, j + pvc)" by blast
    from Cons.IH [OF le] True c show ?thesis
      by simp
  next
    case False
    with Cons.prems have le: "Suc j + second_pass_index as pvc (length as) \<le> length cur"
      by simp
    then have "j < length cur" by simp
    with Cons.IH [OF le] False show ?thesis
      by simp
  qed
qed

lemma bind_plain_in_range:
  "i + length cs \<le> length args \<Longrightarrow> \<exists>cv'. bind_plain args cs i cv = Inr cv'"
  by (induction cs arbitrary: i cv) simp_all

text \<open>Once the checks of the positional tokens have passed, Parse returns.\<close>

lemma Parse_returns:
  assumes wf: "wf_schema p"
    and ns: "\<forall>t. Parse p (path # args) \<noteq> Inl (Exit_0 t)"
    and toks: "tokens_of p args = Inr (ca, co, opts)"
    and val: "validate (have_argument_pack p) (all_arguments p) ca = Inr ()"
  shows "\<exists>p'. Parse p (path # args) = Inr p'"
proof -
  let ?args = "all_arguments p"
  note counts = validate_counts [OF wf val]
  have "\<exists>cv. bind_arguments (have_argument_pack p) ?args ca Map.empty = Inr cv"
  proof (cases "have_argument_pack p")
    case True
    with counts have le: "length ?args \<le> length ca" by simp
    from wf True have ex: "\<exists>a \<in> set ?args. is_package a"
      and one: "length (filter is_package ?args) \<le> 1"
      by (simp_all add: wf_schema_def)
    from pack_position_less [OF ex] have k: "pack_position ?args < length ?args" by simp
    from second_pass_index_one_pack [OF one order_refl, of "length ca + 1 - length ?args"] k le
    have "0 + second_pass_index ?args (length ca + 1 - length ?args) (length ?args) \<le> length ca"
      by simp
    from bind_pack_in_range [OF this, of Map.empty] True le show ?thesis
      by (simp add: bind_arguments_def)
  next
    case False
    with counts have "0 + length ca \<le> length ?args" by simp
    from bind_plain_in_range [OF this, of Map.empty] False show ?thesis
      by (simp add: bind_arguments_def)
  qed
  with Parse_not_shortcut [OF ns toks] val show ?thesis by auto
qed

lemma check_pack_tokens_total:
  "j + k \<le> length cur \<Longrightarrow>
   check_pack_tokens a cur k j = Inr (j + k) \<or>
   (\<exists>d. check_pack_tokens a cur k j = Inl (Exit_failure d))"
proof (induction k arbitrary: j)
  case 0
  show ?case by simp
next
  case (Suc k)
  then have "Suc j + k \<le> length cur" "j < length cur" by simp_all
  with Suc.IH [of "Suc j"] show ?case by auto
qed

lemma all_less_Suc: "(\<forall>m < Suc n. P m) \<longleftrightarrow> P 0 \<and> (\<forall>m < n. P (Suc m))"
  by (metis less_Suc_eq_0_disj)

text \<open>
  The first pass when no Argument behind the pack asks for numbers: it passes exactly when
  the tokens of the Arguments that ask for numbers pass, and ends the process otherwise.
\<close>

lemma validate_pack_up_to_pack:
  assumes "0 < pvc"
    and "j + second_pass_index as pvc (length as) \<le> length cur"
    and "\<forall>i < length as. pack_position as < i \<longrightarrow> \<not> arg_only_number (as ! i)"
  shows "(validate_pack as cur pvc j = Inr () \<longleftrightarrow>
           (\<forall>i < length as. arg_only_number (as ! i) \<longrightarrow>
              (\<forall>t \<in> set (if is_package (as ! i) then take pvc (drop (j + i) cur)
                           else [cur ! (j + i)]). \<not> stoi_throws t))) \<and>
         (validate_pack as cur pvc j = Inr () \<or>
          (\<exists>d. validate_pack as cur pvc j = Inl (Exit_failure d)))"
  using assms(2,3)
proof (induction as arbitrary: j)
  case Nil
  show ?case by simp
next
  case (Cons a as)
  show ?case
  proof (cases "is_package a")
    case True
    from Cons.prems(2) True have plain: "\<forall>b \<in> set as. \<not> arg_only_number b"
      by (auto simp: in_set_conv_nth all_less_Suc)
    then have nn: "\<forall>i < length as. \<not> arg_only_number (as ! i)" by simp
    from plain assms(1) have rest: "validate_pack as cur pvc j' = Inr ()" for j'
      by (rule validate_pack_no_numbers)
    from Cons.prems(1) True have jk: "j + pvc \<le> length cur" by simp
    show ?thesis
    proof (cases "arg_only_number a")
      case False
      with True assms(1) rest nn show ?thesis
        by (simp add: check_pack_tokens_no_numbers all_less_Suc)
    next
      case num: True
      from check_pack_tokens_passes [OF jk, of a] num
      have iff: "(\<exists>j'. check_pack_tokens a cur pvc j = Inr j') \<longleftrightarrow>
                 (\<forall>t \<in> set (take pvc (drop j cur)). \<not> stoi_throws t)"
        by simp
      from check_pack_tokens_total [OF jk, of a] True num assms(1) rest iff nn show ?thesis
        by (auto simp: all_less_Suc)
    qed
  next
    case False
    from Cons.prems(1) False
    have range: "Suc j + second_pass_index as pvc (length as) \<le> length cur" by simp
    then have j: "j < length cur" by simp
    from Cons.prems(2) False
    have after: "\<forall>i < length as. pack_position as < i \<longrightarrow> \<not> arg_only_number (as ! i)"
      by (auto simp: all_less_Suc)
    let ?Q = "\<forall>i < length as. arg_only_number (as ! i) \<longrightarrow>
              (\<forall>t \<in> set (if is_package (as ! i) then take pvc (drop (Suc j + i) cur)
                           else [cur ! (Suc j + i)]). \<not> stoi_throws t)"
    from Cons.IH [OF range after]
    have IH1: "validate_pack as cur pvc (Suc j) = Inr () \<longleftrightarrow> ?Q"
      and IH2: "validate_pack as cur pvc (Suc j) = Inr () \<or>
                (\<exists>d. validate_pack as cur pvc (Suc j) = Inl (Exit_failure d))"
      by blast+
    have rhs: "(\<forall>i < length (a # as). arg_only_number ((a # as) ! i) \<longrightarrow>
              (\<forall>t \<in> set (if is_package ((a # as) ! i) then take pvc (drop (j + i) cur)
                           else [cur ! (j + i)]). \<not> stoi_throws t)) \<longleftrightarrow>
               (arg_only_number a \<longrightarrow> \<not> stoi_throws (cur ! j)) \<and> ?Q"
      using False by (simp add: all_less_Suc)
    show ?thesis
    proof (cases "arg_only_number a \<and> stoi_throws (cur ! j)")
      case True
      with False j show ?thesis unfolding rhs by simp
    next
      case ok: False
      with False j have "validate_pack (a # as) cur pvc j = validate_pack as cur pvc (Suc j)"
        by auto
      with ok IH1 IH2 show ?thesis unfolding rhs by auto
    qed
  qed
qed

text \<open>
  With a pack, at least as many positional tokens as Arguments, and no Argument behind the
  pack that asks for numbers, a call that is not a shortcut returns exactly when every
  token of a numeric-only Argument passes the number check, and ends with the failure
  status otherwise.
\<close>

lemma Parse_pack_checks:
  assumes wf: "wf_schema p"
    and hp: "have_argument_pack p"
    and ns: "\<forall>t. Parse p (path # args) \<noteq> Inl (Exit_0 t)"
    and toks: "tokens_of p args = Inr (ca, co, opts)"
    and le: "length (all_arguments p) \<le> length ca"
    and after: "\<forall>m < length (all_arguments p).
                  pack_position (all_arguments p) < m \<longrightarrow> \<not> arg_only_number (all_arguments p ! m)"
  shows "((\<exists>q. Parse p (path # args) = Inr q) \<longleftrightarrow>
           (\<forall>m < length (all_arguments p). arg_only_number (all_arguments p ! m) \<longrightarrow>
              (\<forall>t \<in> set (if m = pack_position (all_arguments p)
                           then take (length ca - (length (all_arguments p) - 1)) (drop m ca)
                           else [ca ! token_index (all_arguments p) (length ca) m]).
                 \<not> stoi_throws t))) \<and>
         ((\<exists>q. Parse p (path # args) = Inr q) \<or>
          (\<exists>d. Parse p (path # args) = Inl (Exit_failure d)))"
proof -
  let ?args = "all_arguments p"
  let ?D = "length ?args"
  let ?P = "length ca"
  let ?k = "pack_position ?args"
  let ?pvc = "?P + 1 - ?D"
  from wf hp have ex: "\<exists>a \<in> set ?args. is_package a"
    and one: "length (filter is_package ?args) \<le> 1"
    by (simp_all add: wf_schema_def)
  note k = pack_position_less [OF ex]
  have uniq: "is_package (?args ! m) \<longleftrightarrow> m = ?k" if "m < ?D" for m
    using pack_position_unique [OF one that] k by auto
  from k have D: "1 \<le> ?D" by arith
  with le have pos: "0 < ?pvc" and pvc: "?pvc = ?P - (?D - 1)" by arith+
  from D le have "\<not> ?P < ?D - 1" "?D \<le> ?P + 1" by arith+
  with D hp have v: "validate (have_argument_pack p) ?args ca = validate_pack ?args ca ?pvc 0"
    by (simp add: validate_def)
  from second_pass_index_one_pack [OF one order_refl, of ?pvc] k le
  have range: "0 + second_pass_index ?args ?pvc ?D \<le> ?P" by simp
  note vp = validate_pack_up_to_pack [OF pos range after]
  define A where "A m = (if is_package (?args ! m) then take ?pvc (drop (0 + m) ca)
                         else [ca ! (0 + m)])" for m
  define B where "B m = (if m = ?k then take (?P - (?D - 1)) (drop m ca)
                         else [ca ! token_index ?args ?P m])" for m
  have same: "A m = B m" if m: "m < ?D" and num: "arg_only_number (?args ! m)" for m
  proof (cases "m = ?k")
    case True
    with uniq [OF m] have "is_package (?args ! m)" by simp
    then have "A m = take ?pvc (drop m ca)" by (simp add: A_def)
    also have "\<dots> = take (?P - (?D - 1)) (drop m ca)" by (simp only: pvc)
    also have "\<dots> = B m" using True by (simp add: B_def)
    finally show ?thesis .
  next
    case False
    with after m num have "m \<le> ?k" by (metis not_le_imp_less)
    with False uniq [OF m] show ?thesis by (simp add: A_def B_def token_index_def)
  qed
  from vp have vpA: "validate_pack ?args ca ?pvc 0 = Inr () \<longleftrightarrow>
      (\<forall>m < ?D. arg_only_number (?args ! m) \<longrightarrow> (\<forall>t \<in> set (A m). \<not> stoi_throws t))"
    unfolding A_def by (rule conjunct1)
  have "(\<forall>m < ?D. arg_only_number (?args ! m) \<longrightarrow> (\<forall>t \<in> set (A m). \<not> stoi_throws t)) \<longleftrightarrow>
        (\<forall>m < ?D. arg_only_number (?args ! m) \<longrightarrow> (\<forall>t \<in> set (B m). \<not> stoi_throws t))"
    using same by auto
  with vpA v
  have checks: "validate (have_argument_pack p) ?args ca = Inr () \<longleftrightarrow>
           (\<forall>m < ?D. arg_only_number (?args ! m) \<longrightarrow>
              (\<forall>t \<in> set (if m = ?k then take (?P - (?D - 1)) (drop m ca)
                           else [ca ! token_index ?args ?P m]). \<not> stoi_throws t))"
    unfolding B_def by simp
  from vp have "validate_pack ?args ca ?pvc 0 = Inr () \<or>
      (\<exists>d. validate_pack ?args ca ?pvc 0 = Inl (Exit_failure d))"
    by (rule conjunct2)
  then have total: "validate (have_argument_pack p) ?args ca = Inr () \<or>
      (\<exists>d. validate (have_argument_pack p) ?args ca = Inl (Exit_failure d))"
    unfolding v .
  have ret: "(\<exists>q. Parse p (path # args) = Inr q) \<longleftrightarrow>
             validate (have_argument_pack p) ?args ca = Inr ()"
  proof
    assume "\<exists>q. Parse p (path # args) = Inr q"
    then obtain q where "Parse p (path # args) = Inr q" ..
    with toks show "validate (have_argument_pack p) ?args ca = Inr ()"
      by (auto elim!: Parse_Inr)
  next
    assume "validate (have_argument_pack p) ?args ca = Inr ()"
    then show "\<exists>q. Parse p (path # args) = Inr q"
      by (rule Parse_returns [OF wf ns toks])
  qed
  have "(\<exists>q. Parse p (path # args) = Inr q) \<or> (\<exists>d. Parse p (path # args) = Inl (Exit_failure d))"
    using total
  proof
    assume "validate (have_argument_pack p) ?args ca = Inr ()"
    with ret show ?thesis by simp
  next
    assume "\<exists>d. validate (have_argument_pack p) ?args ca = Inl (Exit_failure d)"
    with Parse_not_shortcut [OF ns toks] show ?thesis by auto
  qed
  with ret checks show ?thesis by simp
qed

section \<open>The claims\<close>

text \<open>
  Claim C1 says that when the same option starts more than once in the raw tokens, Parse
  binds it to the values captured at its last occurrence only. The code does not do so:
  the bare \<open>cur_options[option_name]\<close> keeps an entry that is already there, and every
  value is pushed onto its back. With an option \<open>--x\<close> of one value and the short name
  \<open>-x\<close>, the tokens \<open>--x 1 -x 2\<close> hold two occurrences, which capture \<open>1\<close> and \<open>2\<close>, and
  the option is bound to both values, not to the last one.
\<close>

theorem repeated_option_counterexample:
  "occurrences
     (all_options (snd (AddOption (new_parser ''cmd'' []) ''--x'' 1 ''-x'' [] False)))
     (short_name_to_name_of_option (snd (AddOption (new_parser ''cmd'' []) ''--x'' 1 ''-x'' [] False)))
     [''--x'', ''1'', ''-x'', ''2'']
   = [(''--x'', [''1'']), (''--x'', [''2''])] \<and>
   Parse_then_index (snd (AddOption (new_parser ''cmd'' []) ''--x'' 1 ''-x'' [] False))
     [''prog'', ''--x'', ''1'', ''-x'', ''2''] ''--x''
   = Inr (Value_multi [''1'', ''2'']) \<and>
   Parse_then_index (snd (AddOption (new_parser ''cmd'' []) ''--x'' 1 ''-x'' [] False))
     [''prog'', ''--x'', ''1'', ''-x'', ''2''] ''--x''
   \<noteq> Inr (Value_multi [''2''])"
  by code_simp

text \<open>
  Claim C1, amended. For every parser built by the registration functions and every raw
  token list on which Parse returns, an option that starts at least once is bound to the
  concatenation, in the order of the occurrences, of the value lists captured at all its
  occurrences (by its long name or by its short name): a later occurrence appends to what
  the earlier ones captured.
\<close>

theorem repeated_option_accumulates:
  assumes "reachable p"
    and "Parse p (path # args) = Inr p'"
    and "n \<in> fst ` set (occurrences (all_options p) (short_name_to_name_of_option p) args)"
  shows "operator_index p' n =
         Value_multi (concat (captured
           (occurrences (all_options p) (short_name_to_name_of_option p) args) n))"
  using Parse_option(1) [OF reachable_wf [OF assms(1)] assms(2,3)]
  by (simp add: operator_index_def)

theorem repeated_option_accumulates_witness:
  "Parse_then_index (snd (AddOption (new_parser ''cmd'' []) ''--x'' 1 ''-x'' [] False))
     [''prog'', ''--x'', ''1'', ''-x'', ''2''] ''--x''
   = Inr (Value_multi (concat [[''1''], [''2'']]))"
proof -
  define p0 where "p0 = snd (AddOption (new_parser ''cmd'' []) ''--x'' 1 ''-x'' [] False)"
  have r: "reachable p0"
    unfolding p0_def by (intro reach_AddOption reach_new)
  have "Parse_then_index p0 [''prog'', ''--x'', ''1'', ''-x'', ''2''] ''--x''
        = Inr (Value_multi [''1'', ''2''])"
    unfolding p0_def by code_simp
  then obtain p' where parse: "Parse p0 (''prog'' # [''--x'', ''1'', ''-x'', ''2'']) = Inr p'"
    by (auto simp: Parse_then_index_def split: sum.splits)
  have occ: "occurrences (all_options p0) (short_name_to_name_of_option p0)
               [''--x'', ''1'', ''-x'', ''2''] = [(''--x'', [''1'']), (''--x'', [''2''])]"
    unfolding p0_def by code_simp
  then have m: "''--x'' \<in> fst ` set (occurrences (all_options p0)
                  (short_name_to_name_of_option p0) [''--x'', ''1'', ''-x'', ''2''])"
    by simp
  from repeated_option_accumulates [OF r parse m] occ parse
  show ?thesis
    unfolding p0_def [symmetric] by (simp add: Parse_then_index_def captured_def)
qed

text \<open>
  Claim C2 says that, with a pack, the number check of every Argument beside the pack is
  applied to the very token that is then bound to that Argument, also when the pack is
  declared before other Arguments. The first pass of the code misses this for the
  Arguments after the pack: the increment of its \<open>for\<close> adds one to \<open>j\<close> after the loop of
  the pack has moved \<open>j\<close> past the tokens of the pack, so the check reads the token after
  the one that the second pass binds. Declare the pack \<open>items\<close>, then \<open>n\<close> for numbers
  only, then \<open>tail\<close>. On the tokens \<open>1 abc 7\<close> Parse returns with \<open>n\<close> bound to \<open>abc\<close>,
  which is no number; on \<open>1 5 x\<close> it ends the process over \<open>x\<close>, the token of \<open>tail\<close>.
  Without \<open>tail\<close>, on \<open>1 5\<close>, the check reads past the end of the positional tokens.
\<close>

theorem number_check_after_pack_reads_next_token:
  "stoi_throws ''abc'' \<and> \<not> stoi_throws ''5'' \<and>
   all_arguments
     (snd (AddArgument (snd (AddArgument (snd (AddArgumentPack
        (new_parser ''cmd'' []) ''items'' [] False)) ''n'' [] True)) ''tail'' [] False)) ! 1
     = \<lparr>arg_name = ''n'', arg_note = [], arg_only_number = True, is_package = False\<rparr> \<and>
   Parse_then_index
     (snd (AddArgument (snd (AddArgument (snd (AddArgumentPack
        (new_parser ''cmd'' []) ''items'' [] False)) ''n'' [] True)) ''tail'' [] False))
     [''prog'', ''1'', ''abc'', ''7''] ''n'' = Inr (Value_single ''abc'') \<and>
   Parse_then_index
     (snd (AddArgument (snd (AddArgument (snd (AddArgumentPack
        (new_parser ''cmd'' []) ''items'' [] False)) ''n'' [] True)) ''tail'' [] False))
     [''prog'', ''1'', ''5'', ''x''] ''n''
     = Inl (Exit_failure (ArgumentRequireNumber ''n'' ''x'')) \<and>
   Parse_then_index
     (snd (AddArgument (snd (AddArgumentPack
        (new_parser ''cmd'' []) ''items'' [] False)) ''n'' [] True))
     [''prog'', ''1'', ''5''] ''n'' = Inl Undefined_read"
  by code_simp

text \<open>
  Claim C3 says that \<open>UsageInfo\<close> returns the same string whether or not Parse has been
  called before, as a function of the registered arguments and options only. The code
  prints \<open>app_path_\<close>, which Parse sets to \<open>argv[0]\<close>, and the word \<open>command\<close> while that
  path is empty: the usage line of a parser with one argument changes with a call of
  Parse.
\<close>

theorem usage_after_parse_counterexample:
  "UsageInfo (snd (AddArgument (new_parser ''cat'' []) ''file'' [] False))
     = ''Usage: command <file>'' \<and>
   Parse_then_UsageInfo (snd (AddArgument (new_parser ''cat'' []) ''file'' [] False))
     [''./cat'', ''a.txt'']
     = Inr ''Usage: ./cat <file>'' \<and>
   Parse_then_UsageInfo (snd (AddArgument (new_parser ''cat'' []) ''file'' [] False))
     [''./cat'', ''a.txt'']
     \<noteq> Inr (UsageInfo (snd (AddArgument (new_parser ''cat'' []) ''file'' [] False)))"
  by code_simp

text \<open>
  Claim C3, amended. \<open>UsageInfo\<close> returns the same string across repeated calls, and its
  output is a function of the registered arguments, the registered options and the
  program path that the latest call of Parse stored (\<open>argv[0]\<close>; the word \<open>command\<close> is
  printed while that path is empty, as before any Parse). It does not depend on the
  values a Parse bound, and a returning Parse of a parser built by the registration
  functions changes nothing else that \<open>UsageInfo\<close> reads: the usage line after it is the
  one of the same registrations with the path \<open>argv[0]\<close>, whatever the other tokens were.
\<close>

theorem usage_depends_on_schema_and_path:
  "(all_arguments q = all_arguments q' \<and> all_options q = all_options q' \<and>
    app_path q = app_path q' \<longrightarrow> UsageInfo q = UsageInfo q') \<and>
   (reachable p \<and> Parse p (path # args) = Inr p' \<longrightarrow>
      all_arguments p' = all_arguments p \<and> all_options p' = all_options p \<and>
      app_path p' = path \<and> UsageInfo p' = UsageInfo (p\<lparr>app_path := path\<rparr>))"
proof (rule conjI; rule impI)
  assume "all_arguments q = all_arguments q' \<and> all_options q = all_options q' \<and>
    app_path q = app_path q'"
  then show "UsageInfo q = UsageInfo q'" by (simp add: UsageInfo_def)
next
  assume a: "reachable p \<and> Parse p (path # args) = Inr p'"
  then have wf: "wf_schema p" by (simp add: reachable_wf)
  from a obtain ca co opts cv where
    t: "tokens_of p args = Inr (ca, co, opts)"
    and p': "p' = p\<lparr>app_path := path, cur_values := bind_options opts co cv, all_options := opts\<rparr>"
    by (auto elim!: Parse_Inr)
  from tokens_of_result(1) [OF wf_closed [OF wf] t] have "opts = all_options p" .
  with p' show "all_arguments p' = all_arguments p \<and> all_options p' = all_options p \<and>
      app_path p' = path \<and> UsageInfo p' = UsageInfo (p\<lparr>app_path := path\<rparr>)"
    by (simp add: UsageInfo_def)
qed

theorem usage_depends_on_schema_and_path_witness:
  "UsageInfo (snd (AddArgument (new_parser ''cat'' []) ''file'' [] False)
              \<lparr>cur_values := [''file'' \<mapsto> Value_single ''a.txt'']\<rparr>)
     = UsageInfo (snd (AddArgument (new_parser ''cat'' []) ''file'' [] False)) \<and>
   Parse_then_UsageInfo (snd (AddArgument (new_parser ''cat'' []) ''file'' [] False))
     [''./cat'', ''a.txt'']
     = Inr (UsageInfo (snd (AddArgument (new_parser ''cat'' []) ''file'' [] False)
                       \<lparr>app_path := ''./cat''\<rparr>)) \<and>
   Parse_then_UsageInfo (snd (AddArgument (new_parser ''cat'' []) ''file'' [] False))
     [''./cat'', ''b.txt'']
     = Parse_then_UsageInfo (snd (AddArgument (new_parser ''cat'' []) ''file'' [] False))
     [''./cat'', ''a.txt'']"
proof -
  define p0 where "p0 = snd (AddArgument (new_parser ''cat'' []) ''file'' [] False)"
  have r: "reachable p0"
    unfolding p0_def by (intro reach_AddArgument reach_new)
  have "Parse_then_UsageInfo p0 [''./cat'', ''a.txt''] = Inr ''Usage: ./cat <file>''"
    unfolding p0_def by code_simp
  then obtain p1 where parse1: "Parse p0 (''./cat'' # [''a.txt'']) = Inr p1"
    by (auto simp: Parse_then_UsageInfo_def split: sum.splits)
  have "Parse_then_UsageInfo p0 [''./cat'', ''b.txt''] = Inr ''Usage: ./cat <file>''"
    unfolding p0_def by code_simp
  then obtain p2 where parse2: "Parse p0 (''./cat'' # [''b.txt'']) = Inr p2"
    by (auto simp: Parse_then_UsageInfo_def split: sum.splits)
  from usage_depends_on_schema_and_path
         [of "p0\<lparr>cur_values := [''file'' \<mapsto> Value_single ''a.txt'']\<rparr>" p0 p0 "''./cat''" "[''a.txt'']" p1]
       r parse1
  have 1: "UsageInfo (p0\<lparr>cur_values := [''file'' \<mapsto> Value_single ''a.txt'']\<rparr>) = UsageInfo p0"
    and 2: "UsageInfo p1 = UsageInfo (p0\<lparr>app_path := ''./cat''\<rparr>)"
    by simp_all
  from usage_depends_on_schema_and_path
         [of "p0\<lparr>cur_values := [''file'' \<mapsto> Value_single ''a.txt'']\<rparr>" p0 p0 "''./cat''" "[''b.txt'']" p2]
       r parse2
  have 3: "UsageInfo p2 = UsageInfo (p0\<lparr>app_path := ''./cat''\<rparr>)"
    by simp
  from 1 2 3 parse1 parse2 show ?thesis
    unfolding p0_def [symmetric] by (simp add: Parse_then_UsageInfo_def)
qed

text \<open>
  Claim C4 says that with exactly one pack among the \<open>D\<close> declared Arguments and no option
  violation, \<open>P \<ge> D\<close> positional tokens are always bound: each plain Argument to one
  token, the pack to \<open>P - (D - 1)\<close> tokens. The code binds nothing before its first pass
  has passed, and that pass applies the number check of lines 426-435 to the token of
  every Argument that asks for numbers. With a numeric-only Argument \<open>a\<close> followed by the
  pack \<open>items\<close>, the tokens \<open>x y\<close> hold no option, \<open>P = D = 2\<close>, and Parse ends the
  process with the failure status: neither \<open>a\<close> nor \<open>items\<close> is bound.
\<close>

theorem pack_binding_counterexample:
  "tokens_of (snd (AddArgumentPack (snd (AddArgument (new_parser ''cmd'' []) ''a'' [] True))
                ''items'' [] False)) [''x'', ''y'']
   = Inr ([''x'', ''y''], [],
          all_options (snd (AddArgumentPack (snd (AddArgument (new_parser ''cmd'' []) ''a'' [] True))
                ''items'' [] False))) \<and>
   map is_package (all_arguments
     (snd (AddArgumentPack (snd (AddArgument (new_parser ''cmd'' []) ''a'' [] True))
                ''items'' [] False))) = [False, True] \<and>
   Parse_then_index (snd (AddArgumentPack (snd (AddArgument (new_parser ''cmd'' []) ''a'' [] True))
                ''items'' [] False)) [''prog'', ''x'', ''y''] ''a''
   = Inl (Exit_failure (ArgumentRequireNumber ''a'' ''x'')) \<and>
   Parse_then_index (snd (AddArgumentPack (snd (AddArgument (new_parser ''cmd'' []) ''a'' [] True))
                ''items'' [] False)) [''prog'', ''x'', ''y''] ''a''
   \<noteq> Inr (Value_single ''x'') \<and>
   Parse_then_index (snd (AddArgumentPack (snd (AddArgument (new_parser ''cmd'' []) ''a'' [] True))
                ''items'' [] False)) [''prog'', ''x'', ''y''] ''items''
   \<noteq> Inr (Value_multi [''y''])"
  by code_simp

text \<open>
  Claim C4, amended. Take a parser built by the registration functions that holds a pack,
  and a call of Parse that is not one of the two built-in shortcuts and whose scan returns
  \<open>P\<close> positional tokens, with \<open>D\<close> declared Arguments. When \<open>P \<le> D - 1\<close>, Parse ends
  the process with the failure status. When \<open>P \<ge> D\<close> and no Argument declared behind the
  pack asks for numbers, Parse returns exactly when every token that falls to an Argument
  asking for numbers passes the number check, the pack's \<open>P - (D - 1)\<close> tokens included,
  and ends the process with the failure status otherwise; when it returns, every Argument
  before the pack is bound to the positional token of its own index, the pack to the
  \<open>P - (D - 1)\<close> tokens that start at its index, in order, and every Argument behind the
  pack to the token at its index plus \<open>P - D\<close>. These indices are all below \<open>P\<close>, and
  the pack is the only Argument marked as a package. Nothing is said here about a schema
  with a numeric-only Argument behind the pack.
\<close>

theorem pack_count_and_binding:
  assumes "reachable p"
    and "have_argument_pack p"
    and "tokens_of p args = Inr (ca, co, opts)"
    and "\<forall>t. Parse p (path # args) \<noteq> Inl (Exit_0 t)"
  shows "(length ca \<le> length (all_arguments p) - 1 \<longrightarrow>
            (\<exists>d. Parse p (path # args) = Inl (Exit_failure d))) \<and>
         (length (all_arguments p) \<le> length ca \<and>
          (\<forall>m < length (all_arguments p).
              pack_position (all_arguments p) < m \<longrightarrow> \<not> arg_only_number (all_arguments p ! m)) \<longrightarrow>
            (if \<forall>m < length (all_arguments p). arg_only_number (all_arguments p ! m) \<longrightarrow>
                  (\<forall>t \<in> set (if m = pack_position (all_arguments p)
                               then take (length ca - (length (all_arguments p) - 1)) (drop m ca)
                               else [ca ! token_index (all_arguments p) (length ca) m]).
                     \<not> stoi_throws t)
             then \<exists>q. Parse p (path # args) = Inr q \<and>
                    (\<forall>i < length (all_arguments p).
                       operator_index q (arg_name (all_arguments p ! i)) =
                         (if i = pack_position (all_arguments p)
                          then Value_multi
                                 (take (length ca - (length (all_arguments p) - 1)) (drop i ca))
                          else Value_single (ca ! token_index (all_arguments p) (length ca) i)))
             else \<exists>d. Parse p (path # args) = Inl (Exit_failure d))) \<and>
         (length (all_arguments p) \<le> length ca \<longrightarrow>
            (\<forall>i < length (all_arguments p). token_index (all_arguments p) (length ca) i < length ca)) \<and>
         pack_position (all_arguments p) < length (all_arguments p) \<and>
         (\<forall>i < length (all_arguments p).
            is_package (all_arguments p ! i) \<longleftrightarrow> i = pack_position (all_arguments p))"
proof -
  let ?args = "all_arguments p"
  let ?D = "length ?args"
  let ?P = "length ca"
  let ?k = "pack_position ?args"
  let ?checks = "\<forall>m < ?D. arg_only_number (?args ! m) \<longrightarrow>
                  (\<forall>t \<in> set (if m = ?k then take (?P - (?D - 1)) (drop m ca)
                               else [ca ! token_index ?args ?P m]). \<not> stoi_throws t)"
  let ?bound = "\<lambda>q. \<forall>i < ?D. operator_index q (arg_name (?args ! i)) =
                 (if i = ?k then Value_multi (take (?P - (?D - 1)) (drop i ca))
                  else Value_single (ca ! token_index ?args ?P i))"
  note wf = reachable_wf [OF assms(1)]
  note ns = assms(4)
  from wf assms(2) have ex: "\<exists>a \<in> set ?args. is_package a"
    and one: "length (filter is_package ?args) \<le> 1"
    by (simp_all add: wf_schema_def)
  note k = pack_position_less [OF ex]
  have uniq: "is_package (?args ! i) \<longleftrightarrow> i = ?k" if "i < ?D" for i
    using pack_position_unique [OF one that] k by auto
  have fatal: "\<exists>d. Parse p (path # args) = Inl (Exit_failure d)" if "?P \<le> ?D - 1"
  proof (cases "?P < ?D - 1")
    case True
    with k assms(2) have "\<exists>d. validate (have_argument_pack p) ?args ca = Inl (Exit_failure d)"
      by (simp add: validate_def)
    with Parse_not_shortcut [OF ns assms(3)] show ?thesis by auto
  next
    case False
    with that have eq: "?P = ?D - 1" by simp
    with k have "0 + ?k \<le> ?P" by arith
    from validate_pack_zero [OF ex this] eq k assms(2)
    have "\<exists>d. validate (have_argument_pack p) ?args ca = Inl (Exit_failure d)"
      by (simp add: validate_def)
    with Parse_not_shortcut [OF ns assms(3)] show ?thesis by auto
  qed
  have bound: "operator_index p' (arg_name (?args ! i)) =
                 (if i = ?k then Value_multi (take (?P - (?D - 1)) (drop i ca))
                  else Value_single (ca ! token_index ?args ?P i))"
    if le: "?D \<le> ?P" and parse: "Parse p (path # args) = Inr p'" and i: "i < ?D" for i p'
  proof (cases "i = ?k")
    case True
    with uniq [OF i] have pkg: "is_package (?args ! i)" by simp
    from i le have 2: "?P + 1 - ?D = ?P - (?D - 1)" by simp
    from True have ti: "token_index ?args ?P i = i" by (simp add: token_index_def)
    from Parse_argument [OF wf parse assms(3) i] pkg
    have "cur_values p' (arg_name (?args ! i)) =
            Some (Value_multi (take (?P + 1 - ?D) (drop (token_index ?args ?P i) ca)))"
      by simp
    then have "operator_index p' (arg_name (?args ! i)) =
                 Value_multi (take (?P - (?D - 1)) (drop i ca))"
      unfolding ti 2 by (simp add: operator_index_def)
    with True show ?thesis by simp
  next
    case False
    with uniq [OF i] have "\<not> is_package (?args ! i)" by simp
    with Parse_argument [OF wf parse assms(3) i]
    have "operator_index p' (arg_name (?args ! i)) =
            Value_single (ca ! token_index ?args ?P i)"
      by (simp add: operator_index_def)
    with False show ?thesis by simp
  qed
  have decided: "if ?checks then \<exists>q. Parse p (path # args) = Inr q \<and> ?bound q
                 else \<exists>d. Parse p (path # args) = Inl (Exit_failure d)"
    if le: "?D \<le> ?P"
      and after: "\<forall>m < ?D. ?k < m \<longrightarrow> \<not> arg_only_number (?args ! m)"
  proof -
    note c = Parse_pack_checks [OF wf assms(2) ns assms(3) le after]
    from c have iff: "(\<exists>q. Parse p (path # args) = Inr q) \<longleftrightarrow> ?checks"
      by (rule conjunct1)
    from c have total: "(\<exists>q. Parse p (path # args) = Inr q) \<or>
                        (\<exists>d. Parse p (path # args) = Inl (Exit_failure d))"
      by (rule conjunct2)
    show ?thesis
    proof (cases ?checks)
      case True
      with iff obtain q where parse: "Parse p (path # args) = Inr q" by blast
      from bound [OF le parse] have "?bound q" by blast
      with parse have r: "\<exists>q. Parse p (path # args) = Inr q \<and> ?bound q" by blast
      show ?thesis unfolding if_P [OF True] by (rule r)
    next
      case False
      with iff have "\<not> (\<exists>q. Parse p (path # args) = Inr q)" by blast
      with total have r: "\<exists>d. Parse p (path # args) = Inl (Exit_failure d)" by blast
      show ?thesis unfolding if_not_P [OF False] by (rule r)
    qed
  qed
  have idx: "\<forall>i < ?D. token_index ?args ?P i < ?P" if "?D \<le> ?P"
    using that by (auto simp: token_index_def)
  show ?thesis
  proof (intro conjI)
    show "?P \<le> ?D - 1 \<longrightarrow> (\<exists>d. Parse p (path # args) = Inl (Exit_failure d))"
      using fatal by blast
  next
    show "?D \<le> ?P \<and> (\<forall>m < ?D. ?k < m \<longrightarrow> \<not> arg_only_number (?args ! m)) \<longrightarrow>
          (if ?checks then \<exists>q. Parse p (path # args) = Inr q \<and> ?bound q
           else \<exists>d. Parse p (path # args) = Inl (Exit_failure d))"
      using decided by blast
  next
    show "?D \<le> ?P \<longrightarrow> (\<forall>i < ?D. token_index ?args ?P i < ?P)"
      using idx by blast
  next
    show "?k < ?D" using k by simp
  next
    show "\<forall>i < ?D. is_package (?args ! i) \<longleftrightarrow> i = ?k" using uniq by blast
  qed
qed

theorem pack_count_and_binding_witness:
  "(\<exists>d. Parse (snd (AddArgumentPack (snd (AddArgument (new_parser ''cmd'' []) ''a'' [] True))
                  ''items'' [] False)) [''prog'', ''7''] = Inl (Exit_failure d)) \<and>
   Parse_then_index (snd (AddArgumentPack (snd (AddArgument (new_parser ''cmd'' []) ''a'' [] True))
                  ''items'' [] False)) [''prog'', ''7'', ''y'', ''z''] ''a''
     = Inr (Value_single ''7'') \<and>
   Parse_then_index (snd (AddArgumentPack (snd (AddArgument (new_parser ''cmd'' []) ''a'' [] True))
                  ''items'' [] False)) [''prog'', ''7'', ''y'', ''z''] ''items''
     = Inr (Value_multi [''y'', ''z'']) \<and>
   (\<exists>d. Parse (snd (AddArgumentPack (snd (AddArgument (new_parser ''cmd'' []) ''a'' [] True))
                  ''items'' [] False)) [''prog'', ''x'', ''y'', ''z''] = Inl (Exit_failure d)) \<and>
   Parse_then_index (snd (AddArgument (snd (AddArgumentPack (new_parser ''cmd'' []) ''items'' [] True))
                  ''a'' [] False)) [''prog'', ''1'', ''2'', ''z''] ''items''
     = Inr (Value_multi [''1'', ''2'']) \<and>
   Parse_then_index (snd (AddArgument (snd (AddArgumentPack (new_parser ''cmd'' []) ''items'' [] True))
                  ''a'' [] False)) [''prog'', ''1'', ''2'', ''z''] ''a''
     = Inr (Value_single ''z'') \<and>
   (\<exists>d. Parse (snd (AddArgument (snd (AddArgumentPack (new_parser ''cmd'' []) ''items'' [] True))
                  ''a'' [] False)) [''prog'', ''1'', ''q'', ''z''] = Inl (Exit_failure d))"
proof -
  define pa where
    "pa = snd (AddArgumentPack (snd (AddArgument (new_parser ''cmd'' []) ''a'' [] True)) ''items'' [] False)"
  define pb where
    "pb = snd (AddArgument (snd (AddArgumentPack (new_parser ''cmd'' []) ''items'' [] True)) ''a'' [] False)"
  have ra: "reachable pa"
    unfolding pa_def by (intro reach_AddArgumentPack reach_AddArgument reach_new)
  have rb: "reachable pb"
    unfolding pb_def by (intro reach_AddArgumentPack reach_AddArgument reach_new)
  have ha: "have_argument_pack pa" unfolding pa_def by code_simp
  have hb: "have_argument_pack pb" unfolding pb_def by code_simp
  have aa: "all_arguments pa =
      [\<lparr>arg_name = ''a'', arg_note = [], arg_only_number = True, is_package = False\<rparr>,
       \<lparr>arg_name = ''items'', arg_note = [], arg_only_number = False, is_package = True\<rparr>]"
    unfolding pa_def by code_simp
  have ab: "all_arguments pb =
      [\<lparr>arg_name = ''items'', arg_note = [], arg_only_number = True, is_package = True\<rparr>,
       \<lparr>arg_name = ''a'', arg_note = [], arg_only_number = False, is_package = False\<rparr>]"
    unfolding pb_def by code_simp
  have s: "\<not> stoi_throws ''7''" "\<not> stoi_throws ''1''" "\<not> stoi_throws ''2''"
    "stoi_throws ''x''" "stoi_throws ''q''"
    by code_simp+
  have t1: "tokens_of pa [''7''] = Inr ([''7''], [], all_options pa)"
    unfolding pa_def by code_simp
  have t2: "tokens_of pa [''7'', ''y'', ''z''] = Inr ([''7'', ''y'', ''z''], [], all_options pa)"
    unfolding pa_def by code_simp
  have t3: "tokens_of pa [''x'', ''y'', ''z''] = Inr ([''x'', ''y'', ''z''], [], all_options pa)"
    unfolding pa_def by code_simp
  have t4: "tokens_of pb [''1'', ''2'', ''z''] = Inr ([''1'', ''2'', ''z''], [], all_options pb)"
    unfolding pb_def by code_simp
  have t5: "tokens_of pb [''1'', ''q'', ''z''] = Inr ([''1'', ''q'', ''z''], [], all_options pb)"
    unfolding pb_def by code_simp
  have "Parse_then_index pa [''prog'', ''7''] ''a'' = Inl (Exit_failure (PackValueCount ''items'' 0))"
    unfolding pa_def by code_simp
  then have "Parse pa (''prog'' # [''7'']) = Inl (Exit_failure (PackValueCount ''items'' 0))"
    by (auto simp: Parse_then_index_def split: sum.splits)
  then have n1: "\<forall>t. Parse pa (''prog'' # [''7'']) \<noteq> Inl (Exit_0 t)" by simp
  have "Parse_then_index pa [''prog'', ''7'', ''y'', ''z''] ''a'' = Inr (Value_single ''7'')"
    unfolding pa_def by code_simp
  then obtain p2 where "Parse pa (''prog'' # [''7'', ''y'', ''z'']) = Inr p2"
    by (auto simp: Parse_then_index_def split: sum.splits)
  then have n2: "\<forall>t. Parse pa (''prog'' # [''7'', ''y'', ''z'']) \<noteq> Inl (Exit_0 t)" by simp
  have "Parse_then_index pa [''prog'', ''x'', ''y'', ''z''] ''a''
        = Inl (Exit_failure (ArgumentRequireNumber ''a'' ''x''))"
    unfolding pa_def by code_simp
  then have "Parse pa (''prog'' # [''x'', ''y'', ''z''])
        = Inl (Exit_failure (ArgumentRequireNumber ''a'' ''x''))"
    by (auto simp: Parse_then_index_def split: sum.splits)
  then have n3: "\<forall>t. Parse pa (''prog'' # [''x'', ''y'', ''z'']) \<noteq> Inl (Exit_0 t)" by simp
  have "Parse_then_index pb [''prog'', ''1'', ''2'', ''z''] ''a'' = Inr (Value_single ''z'')"
    unfolding pb_def by code_simp
  then obtain p4 where "Parse pb (''prog'' # [''1'', ''2'', ''z'']) = Inr p4"
    by (auto simp: Parse_then_index_def split: sum.splits)
  then have n4: "\<forall>t. Parse pb (''prog'' # [''1'', ''2'', ''z'']) \<noteq> Inl (Exit_0 t)" by simp
  have "Parse_then_index pb [''prog'', ''1'', ''q'', ''z''] ''a''
        = Inl (Exit_failure (PackRequireNumber ''items'' ''q''))"
    unfolding pb_def by code_simp
  then have "Parse pb (''prog'' # [''1'', ''q'', ''z''])
        = Inl (Exit_failure (PackRequireNumber ''items'' ''q''))"
    by (auto simp: Parse_then_index_def split: sum.splits)
  then have n5: "\<forall>t. Parse pb (''prog'' # [''1'', ''q'', ''z'']) \<noteq> Inl (Exit_0 t)" by simp
  from pack_count_and_binding [OF ra ha t1 n1]
  have 1: "\<exists>d. Parse pa [''prog'', ''7''] = Inl (Exit_failure d)"
    by (simp add: aa)
  from pack_count_and_binding [OF ra ha t2 n2] s
  have 2: "\<exists>q. Parse pa [''prog'', ''7'', ''y'', ''z''] = Inr q \<and>
             operator_index q ''a'' = Value_single ''7'' \<and>
             operator_index q ''items'' = Value_multi [''y'', ''z'']"
    by (simp add: aa all_less_Suc pack_position_def token_index_def)
  from pack_count_and_binding [OF ra ha t3 n3] s
  have 3: "\<exists>d. Parse pa [''prog'', ''x'', ''y'', ''z''] = Inl (Exit_failure d)"
    by (simp add: aa all_less_Suc pack_position_def token_index_def)
  from pack_count_and_binding [OF rb hb t4 n4] s
  have 4: "\<exists>q. Parse pb [''prog'', ''1'', ''2'', ''z''] = Inr q \<and>
             operator_index q ''items'' = Value_multi [''1'', ''2''] \<and>
             operator_index q ''a'' = Value_single ''z''"
    by (simp add: ab all_less_Suc pack_position_def token_index_def)
  from pack_count_and_binding [OF rb hb t5 n5] s
  have 5: "\<exists>d. Parse pb [''prog'', ''1'', ''q'', ''z''] = Inl (Exit_failure d)"
    by (simp add: ab all_less_Suc pack_position_def token_index_def)
  from 1 2 3 4 5 show ?thesis
    unfolding pa_def [symmetric] pb_def [symmetric]
    by (auto simp: Parse_then_index_def)
qed

text \<open>
  Claim C5. When the raw tokens after the program path are the single token \<open>--help\<close> and
  no option of that name is registered, Parse writes the help text (and a line break) to
  the standard output and ends the process with status 0; the same holds for a single
  \<open>--usage\<close> and the usage text. When an option of that very name is registered, the call
  does not end with status 0 through the shortcut: the scan takes the token as the start
  of that option, which is recorded with an empty value list when it takes no values and
  is reported as short of values otherwise.
\<close>

theorem help_and_usage_shortcuts:
  "(\<not> smap_count (all_options p) ''--help'' \<longrightarrow>
      Parse p [path, ''--help''] =
        Inl (Exit_0 (HelpInfo (p\<lparr>app_path := path, cur_values := Map.empty\<rparr>) @ endl))) \<and>
   (\<not> smap_count (all_options p) ''--usage'' \<longrightarrow>
      Parse p [path, ''--usage''] =
        Inl (Exit_0 (UsageInfo (p\<lparr>app_path := path, cur_values := Map.empty\<rparr>) @ endl))) \<and>
   (smap_count (all_options p) ''--help'' \<longrightarrow>
      (\<forall>t. Parse p [path, ''--help''] \<noteq> Inl (Exit_0 t)) \<and>
      tokens_of p [''--help''] =
        (if value_count (smap_get Option_default (all_options p) ''--help'') = 0
         then Inr ([], [(''--help'', [])], all_options p)
         else Inl (Exit_failure (OptionValueCount ''--help''
                    (value_count (smap_get Option_default (all_options p) ''--help'')) 0)))) \<and>
   (smap_count (all_options p) ''--usage'' \<longrightarrow>
      (\<forall>t. Parse p [path, ''--usage''] \<noteq> Inl (Exit_0 t)) \<and>
      tokens_of p [''--usage''] =
        (if value_count (smap_get Option_default (all_options p) ''--usage'') = 0
         then Inr ([], [(''--usage'', [])], all_options p)
         else Inl (Exit_failure (OptionValueCount ''--usage''
                    (value_count (smap_get Option_default (all_options p) ''--usage'')) 0))))"
proof (intro conjI impI)
  assume "\<not> smap_count (all_options p) ''--help''"
  then show "Parse p [path, ''--help''] =
        Inl (Exit_0 (HelpInfo (p\<lparr>app_path := path, cur_values := Map.empty\<rparr>) @ endl))"
    by (simp add: Parse_def)
next
  assume "\<not> smap_count (all_options p) ''--usage''"
  then show "Parse p [path, ''--usage''] =
        Inl (Exit_0 (UsageInfo (p\<lparr>app_path := path, cur_values := Map.empty\<rparr>) @ endl))"
    by (simp add: Parse_def)
next
  assume h: "smap_count (all_options p) ''--help''"
  then show "\<forall>t. Parse p [path, ''--help''] \<noteq> Inl (Exit_0 t)"
    by (auto simp: Parse_def Let_def tokens_of_no_exit_0 validate_no_exit_0
        bind_arguments_no_exit_0 split: sum.splits)
  from h show "tokens_of p [''--help''] =
        (if value_count (smap_get Option_default (all_options p) ''--help'') = 0
         then Inr ([], [(''--help'', [])], all_options p)
         else Inl (Exit_failure (OptionValueCount ''--help''
                    (value_count (smap_get Option_default (all_options p) ''--help'')) 0)))"
    by (rule tokens_of_single_option) simp
next
  assume u: "smap_count (all_options p) ''--usage''"
  then show "\<forall>t. Parse p [path, ''--usage''] \<noteq> Inl (Exit_0 t)"
    by (auto simp: Parse_def Let_def tokens_of_no_exit_0 validate_no_exit_0
        bind_arguments_no_exit_0 split: sum.splits)
  from u show "tokens_of p [''--usage''] =
        (if value_count (smap_get Option_default (all_options p) ''--usage'') = 0
         then Inr ([], [(''--usage'', [])], all_options p)
         else Inl (Exit_failure (OptionValueCount ''--usage''
                    (value_count (smap_get Option_default (all_options p) ''--usage'')) 0)))"
    by (rule tokens_of_single_option) simp
qed

theorem help_and_usage_shortcuts_witness:
  "Parse (new_parser ''cat'' ''show text'') [''prog'', ''--help'']
     = Inl (Exit_0 (''Usage: cat'' @ endl @ ''show text'' @ endl @ endl)) \<and>
   Parse (new_parser ''cat'' ''show text'') [''prog'', ''--usage'']
     = Inl (Exit_0 (''Usage: prog'' @ endl)) \<and>
   tokens_of (snd (AddOption (snd (AddOption (new_parser ''cat'' []) ''--help'' 0 [] [] False))
                ''--usage'' 1 [] [] False)) [''--help'']
     = Inr ([], [(''--help'', [])],
            all_options (snd (AddOption (snd (AddOption (new_parser ''cat'' []) ''--help'' 0 [] [] False))
                ''--usage'' 1 [] [] False))) \<and>
   tokens_of (snd (AddOption (snd (AddOption (new_parser ''cat'' []) ''--help'' 0 [] [] False))
                ''--usage'' 1 [] [] False)) [''--usage'']
     = Inl (Exit_failure (OptionValueCount ''--usage'' 1 0))"
proof -
  define pa where "pa = new_parser ''cat'' ''show text''"
  define pb where "pb = snd (AddOption (snd (AddOption (new_parser ''cat'' []) ''--help'' 0 [] [] False))
                ''--usage'' 1 [] [] False)"
  have na: "\<not> smap_count (all_options pa) ''--help''" "\<not> smap_count (all_options pa) ''--usage''"
    by (simp_all add: pa_def new_parser_def smap_count_def)
  have hb: "smap_count (all_options pb) ''--help''" "smap_count (all_options pb) ''--usage''"
    unfolding pb_def by code_simp+
  have vb: "value_count (smap_get Option_default (all_options pb) ''--help'') = 0"
    "value_count (smap_get Option_default (all_options pb) ''--usage'') = 1"
    unfolding pb_def by code_simp+
  have hi: "HelpInfo (pa\<lparr>app_path := ''prog'', cur_values := Map.empty\<rparr>)
              = ''Usage: cat'' @ endl @ ''show text'' @ endl"
    by (simp add: pa_def new_parser_def HelpInfo_def UsageInfo_def sorted_options_def)
  have ui: "UsageInfo (pa\<lparr>app_path := ''prog'', cur_values := Map.empty\<rparr>) = ''Usage: prog''"
    by (simp add: pa_def new_parser_def UsageInfo_def sorted_options_def)
  from help_and_usage_shortcuts [of pa "''prog''"] na hi ui
  have 1: "Parse pa [''prog'', ''--help'']
             = Inl (Exit_0 (''Usage: cat'' @ endl @ ''show text'' @ endl @ endl))"
    and 2: "Parse pa [''prog'', ''--usage''] = Inl (Exit_0 (''Usage: prog'' @ endl))"
    by simp_all
  from help_and_usage_shortcuts [of pb "''prog''"] hb vb
  have 3: "tokens_of pb [''--help''] = Inr ([], [(''--help'', [])], all_options pb)"
    and 4: "tokens_of pb [''--usage''] = Inl (Exit_failure (OptionValueCount ''--usage'' 1 0))"
    by simp_all
  from 1 2 3 4 show ?thesis
    unfolding pa_def pb_def by simp
qed

text \<open>
  Claim C6. In every parser, \<open>operator[]\<close> on a name that is not bound gives the invalid
  default Value, whose boolean reading is false; there is no failing branch. After a
  returning Parse of a parser built by the registration functions, the name of an option
  registered with no values reads true with an empty multi Value (size 0) when the option
  was matched (it is a key of \<open>cur_options\<close> after the scan), and reads false when it was
  not.
\<close>

theorem lookup_of_unbound_name_and_of_flag:
  "(cur_values q name = None \<longrightarrow>
      operator_index q name = Value_default \<and> \<not> Value_bool (operator_index q name)) \<and>
   (reachable p \<and> map_of (all_options p) n = Some opt \<and> value_count opt = 0 \<and>
    Parse p (path # args) = Inr p' \<and> tokens_of p args = Inr (ca, co, opts) \<longrightarrow>
      (if n \<in> fst ` set co
       then Value_bool (operator_index p' n) \<and> Value_size (operator_index p' n) = 0 \<and>
            operator_index p' n = Value_multi []
       else \<not> Value_bool (operator_index p' n)))"
proof (rule conjI; rule impI)
  assume "cur_values q name = None"
  then show "operator_index q name = Value_default \<and> \<not> Value_bool (operator_index q name)"
    by (simp add: operator_index_def Value_bool_def Value_default_def)
next
  assume a: "reachable p \<and> map_of (all_options p) n = Some opt \<and> value_count opt = 0 \<and>
    Parse p (path # args) = Inr p' \<and> tokens_of p args = Inr (ca, co, opts)"
  then have wf: "wf_schema p" by (simp add: reachable_wf)
  from a have g: "smap_get Option_default (all_options p) n = opt"
    and reg: "smap_count (all_options p) n"
    by (simp_all add: smap_get_def smap_count_def)
  from a have parse: "Parse p (path # args) = Inr p'" and toks: "tokens_of p args = Inr (ca, co, opts)"
    by simp_all
  show "if n \<in> fst ` set co
       then Value_bool (operator_index p' n) \<and> Value_size (operator_index p' n) = 0 \<and>
            operator_index p' n = Value_multi []
       else \<not> Value_bool (operator_index p' n)"
  proof (cases "n \<in> fst ` set co")
    case True
    with tokens_of_matched [OF wf toks]
    have m: "n \<in> fst ` set (occurrences (all_options p) (short_name_to_name_of_option p) args)"
      by simp
    from a g have "value_count (smap_get Option_default (all_options p) n) = 0" by simp
    from Parse_option(1) [OF wf parse m] captured_zero_arity [OF this]
    have "cur_values p' n = Some (Value_multi [])" by simp
    with True show ?thesis
      by (simp add: operator_index_def Value_bool_def Value_size_def Value_multi_def)
  next
    case False
    with tokens_of_matched [OF wf toks]
    have m: "n \<notin> fst ` set (occurrences (all_options p) (short_name_to_name_of_option p) args)"
      by simp
    from Parse_unmatched [OF wf parse reg m] False show ?thesis
      by (simp add: operator_index_def Value_bool_def Value_default_def)
  qed
qed

theorem lookup_of_unbound_name_and_of_flag_witness:
  "\<not> Value_bool (operator_index (new_parser ''cmd'' []) ''file'') \<and>
   Parse_then_index (snd (AddOption (new_parser ''cmd'' []) ''--back'' 0 [] [] False))
     [''prog'', ''--back''] ''--back'' = Inr (Value_multi []) \<and>
   Value_bool (Value_multi []) \<and> Value_size (Value_multi []) = 0 \<and>
   Parse_then_index (snd (AddOption (new_parser ''cmd'' []) ''--back'' 0 [] [] False))
     [''prog''] ''--back'' = Inr Value_default \<and>
   \<not> Value_bool Value_default"
proof -
  define p0 where "p0 = snd (AddOption (new_parser ''cmd'' []) ''--back'' 0 [] [] False)"
  define opt0 where "opt0 = \<lparr>opt_name = ''--back'', short_name = [], opt_note = [],
    value_count = 0, opt_only_number = False, opt_index = 0\<rparr>"
  have u: "cur_values (new_parser ''cmd'' []) ''file'' = None"
    by (simp add: new_parser_def)
  have r: "reachable p0"
    unfolding p0_def by (intro reach_AddOption reach_new)
  have o: "map_of (all_options p0) ''--back'' = Some opt0"
    unfolding p0_def opt0_def by code_simp
  have z: "value_count opt0 = 0" by (simp add: opt0_def)
  have "Parse_then_index p0 [''prog'', ''--back''] ''--back'' = Inr (Value_multi [])"
    unfolding p0_def by code_simp
  then obtain p1 where parse1: "Parse p0 (''prog'' # [''--back'']) = Inr p1"
    by (auto simp: Parse_then_index_def split: sum.splits)
  have t1: "tokens_of p0 [''--back''] = Inr ([], [(''--back'', [])], all_options p0)"
    unfolding p0_def by code_simp
  have "Parse_then_index p0 [''prog''] ''--back'' = Inr Value_default"
    unfolding p0_def by code_simp
  then obtain p2 where parse2: "Parse p0 (''prog'' # []) = Inr p2"
    by (auto simp: Parse_then_index_def split: sum.splits)
  have t2: "tokens_of p0 [] = Inr ([], [], all_options p0)"
    by (simp add: tokens_of_def)
  from lookup_of_unbound_name_and_of_flag
         [of "new_parser ''cmd'' []" "''file''" p0 "''--back''" opt0 "''prog''" "[''--back'']" p1
             "[]" "[(''--back'', [])]" "all_options p0"]
       lookup_of_unbound_name_and_of_flag
         [of "new_parser ''cmd'' []" "''file''" p0 "''--back''" opt0 "''prog''" "[]" p2
             "[]" "[]" "all_options p0"]
       u r o z parse1 t1 parse2 t2
  have "\<not> Value_bool (operator_index (new_parser ''cmd'' []) ''file'')"
    and "operator_index p1 ''--back'' = Value_multi []"
    and "Value_bool (operator_index p1 ''--back'')"
    and "Value_size (operator_index p1 ''--back'') = 0"
    and "\<not> Value_bool (operator_index p2 ''--back'')"
    by (simp_all add: Value_bool_def Value_size_def Value_multi_def Value_default_def)
  moreover have "operator_index p2 ''--back'' = Value_default"
    using \<open>Parse_then_index p0 [''prog''] ''--back'' = Inr Value_default\<close> parse2
    by (simp add: Parse_then_index_def)
  ultimately show ?thesis
    using parse1 parse2 unfolding p0_def [symmetric]
    by (simp add: Parse_then_index_def Value_bool_def Value_size_def Value_multi_def
        Value_default_def)
qed

text \<open>
  Claim C7. After an option with a non-empty short name was registered and a returning
  Parse matched it (it is a key of \<open>cur_options\<close> after the scan), the parser gives the same
  Value under the long name and under the short name: both are the multi Value of the
  captured list, so validity, size and elements agree.
\<close>

theorem long_and_short_name_agree:
  assumes "reachable p"
    and "map_of (all_options p) n = Some opt"
    and "short_name opt \<noteq> []"
    and "Parse p (path # args) = Inr p'"
    and "tokens_of p args = Inr (ca, co, opts)"
    and "map_of co n = Some vals"
  shows "operator_index p' (short_name opt) = operator_index p' n \<and>
         operator_index p' n = Value_multi vals \<and>
         Value_bool (operator_index p' n) \<and>
         Value_size (operator_index p' n) = length vals"
proof -
  note wf = reachable_wf [OF assms(1)]
  from assms(2) have g: "smap_get Option_default (all_options p) n = opt"
    by (simp add: smap_get_def)
  from assms(6) have "n \<in> fst ` set co" by (metis domI dom_map_of_conv_image_fst)
  with tokens_of_matched [OF wf assms(5)]
  have m: "n \<in> fst ` set (occurrences (all_options p) (short_name_to_name_of_option p) args)"
    by simp
  from tokens_of_result(2) [OF wf_closed [OF wf] assms(5), of n] assms(6)
  have v: "concat (captured (occurrences (all_options p) (short_name_to_name_of_option p) args) n) = vals"
    by (simp split: if_splits)
  from Parse_option [OF wf assms(4) m] g assms(3) v
  show ?thesis
    by (simp add: operator_index_def Value_bool_def Value_size_def Value_multi_def)
qed

theorem long_and_short_name_agree_witness:
  "Parse_then_index (snd (AddOption (new_parser ''cmd'' []) ''--x'' 2 ''-x'' [] False))
     [''prog'', ''-x'', ''1'', ''2''] ''-x''
   = Parse_then_index (snd (AddOption (new_parser ''cmd'' []) ''--x'' 2 ''-x'' [] False))
     [''prog'', ''-x'', ''1'', ''2''] ''--x'' \<and>
   Parse_then_index (snd (AddOption (new_parser ''cmd'' []) ''--x'' 2 ''-x'' [] False))
     [''prog'', ''-x'', ''1'', ''2''] ''--x'' = Inr (Value_multi [''1'', ''2''])"
proof -
  define p0 where "p0 = snd (AddOption (new_parser ''cmd'' []) ''--x'' 2 ''-x'' [] False)"
  define opt0 where "opt0 = \<lparr>opt_name = ''--x'', short_name = ''-x'', opt_note = [],
    value_count = 2, opt_only_number = False, opt_index = 0\<rparr>"
  have r: "reachable p0"
    unfolding p0_def by (intro reach_AddOption reach_new)
  have o: "map_of (all_options p0) ''--x'' = Some opt0"
    unfolding p0_def opt0_def by code_simp
  have s: "short_name opt0 \<noteq> []" by (simp add: opt0_def)
  have "Parse_then_index p0 [''prog'', ''-x'', ''1'', ''2''] ''--x'' = Inr (Value_multi [''1'', ''2''])"
    unfolding p0_def by code_simp
  then obtain p' where parse: "Parse p0 (''prog'' # [''-x'', ''1'', ''2'']) = Inr p'"
    by (auto simp: Parse_then_index_def split: sum.splits)
  have t: "tokens_of p0 [''-x'', ''1'', ''2'']
           = Inr ([], [(''--x'', [''1'', ''2''])], all_options p0)"
    unfolding p0_def by code_simp
  have c: "map_of [(''--x'', [''1'', ''2''])] ''--x'' = Some [''1'', ''2'']" by simp
  from long_and_short_name_agree [OF r o s parse t c] parse
  show ?thesis
    unfolding p0_def [symmetric] by (simp add: Parse_then_index_def opt0_def)
qed

text \<open>
  Claim C8. Whenever \<open>AddArgument\<close>, \<open>AddArgumentPack\<close> or \<open>AddOption\<close> returns false, the
  parser is what it was before the call: no argument is appended, no option and no short
  name is stored, and the flag of the pack keeps its value.
\<close>

theorem failed_registration_changes_nothing:
  "(\<not> fst (AddArgument p name note only_number) \<longrightarrow>
      snd (AddArgument p name note only_number) = p) \<and>
   (\<not> fst (AddArgumentPack p' name' note' only_number') \<longrightarrow>
      snd (AddArgumentPack p' name' note' only_number') = p') \<and>
   (\<not> fst (AddOption p'' name'' count short note'' only_number'') \<longrightarrow>
      snd (AddOption p'' name'' count short note'' only_number'') = p'')"
proof (intro conjI impI)
  assume "\<not> fst (AddArgument p name note only_number)"
  then show "snd (AddArgument p name note only_number) = p"
    by (auto simp: AddArgument_def split: if_splits)
next
  assume "\<not> fst (AddArgumentPack p' name' note' only_number')"
  then show "snd (AddArgumentPack p' name' note' only_number') = p'"
    by (auto simp: AddArgumentPack_def split: if_splits)
next
  assume "\<not> fst (AddOption p'' name'' count short note'' only_number'')"
  then show "snd (AddOption p'' name'' count short note'' only_number'') = p''"
    by (auto simp: AddOption_def split: if_splits)
qed

theorem failed_registration_changes_nothing_witness:
  "\<not> fst (AddArgument (snd (AddArgument (new_parser ''cat'' []) ''file'' [] False)) ''file'' ''again'' True) \<and>
   snd (AddArgument (snd (AddArgument (new_parser ''cat'' []) ''file'' [] False)) ''file'' ''again'' True)
     = snd (AddArgument (new_parser ''cat'' []) ''file'' [] False) \<and>
   \<not> fst (AddArgumentPack (snd (AddArgumentPack (new_parser ''cat'' []) ''items'' [] False)) ''more'' [] False) \<and>
   snd (AddArgumentPack (snd (AddArgumentPack (new_parser ''cat'' []) ''items'' [] False)) ''more'' [] False)
     = snd (AddArgumentPack (new_parser ''cat'' []) ''items'' [] False) \<and>
   \<not> fst (AddOption (snd (AddOption (new_parser ''cat'' []) ''--lines'' 1 ''-l'' [] True)) ''--count'' 1 ''-l'' [] True) \<and>
   snd (AddOption (snd (AddOption (new_parser ''cat'' []) ''--lines'' 1 ''-l'' [] True)) ''--count'' 1 ''-l'' [] True)
     = snd (AddOption (new_parser ''cat'' []) ''--lines'' 1 ''-l'' [] True)"
proof -
  have a: "\<not> fst (AddArgument (snd (AddArgument (new_parser ''cat'' []) ''file'' [] False)) ''file'' ''again'' True)"
    by code_simp
  have b: "\<not> fst (AddArgumentPack (snd (AddArgumentPack (new_parser ''cat'' []) ''items'' [] False)) ''more'' [] False)"
    by code_simp
  have c: "\<not> fst (AddOption (snd (AddOption (new_parser ''cat'' []) ''--lines'' 1 ''-l'' [] True)) ''--count'' 1 ''-l'' [] True)"
    by (simp add: AddOption_def new_parser_def smap_count_def VerifyName_def isalpha_def isalnum_def isdigit_def)
  from a b c
    failed_registration_changes_nothing
      [of "snd (AddArgument (new_parser ''cat'' []) ''file'' [] False)" "''file''" "''again''" True
          "snd (AddArgumentPack (new_parser ''cat'' []) ''items'' [] False)" "''more''" "[]" False
          "snd (AddOption (new_parser ''cat'' []) ''--lines'' 1 ''-l'' [] True)" "''--count''" 1 "''-l''" "[]" True]
  show ?thesis by blast
qed

text \<open>
  Claim C9. When Parse returns and the positional token bound to an Argument that is not
  the pack is the empty string, \<open>operator[]\<close> on the name of that Argument gives a single
  Value that holds the empty string and whose boolean reading is false: the presence test
  reports the argument as absent although it was supplied. The bound token is the one at
  \<open>token_index\<close>: the index of the Argument before the pack (or without a pack), and that
  index plus \<open>P - D\<close> after the pack.
\<close>

theorem empty_token_reads_as_absent:
  assumes "reachable p"
    and "Parse p (path # args) = Inr p'"
    and "tokens_of p args = Inr (ca, co, opts)"
    and "i < length (all_arguments p)"
    and "\<not> is_package (all_arguments p ! i)"
    and "ca ! token_index (all_arguments p) (length ca) i = []"
  shows "operator_index p' (arg_name (all_arguments p ! i)) = Value_single [] \<and>
         \<not> Value_bool (operator_index p' (arg_name (all_arguments p ! i)))"
  using Parse_argument [OF reachable_wf [OF assms(1)] assms(2,3,4)] assms(5,6)
  by (simp add: operator_index_def Value_bool_def Value_single_def)

theorem empty_token_reads_as_absent_witness:
  "Parse_then_index (snd (AddArgument (new_parser ''cat'' []) ''file'' [] False))
     [''prog'', []] ''file'' = Inr (Value_single []) \<and>
   \<not> Value_bool (Value_single [])"
proof -
  define p0 where "p0 = snd (AddArgument (new_parser ''cat'' []) ''file'' [] False)"
  have r: "reachable p0"
    unfolding p0_def by (intro reach_AddArgument reach_new)
  have a: "all_arguments p0 =
      [\<lparr>arg_name = ''file'', arg_note = [], arg_only_number = False, is_package = False\<rparr>]"
    unfolding p0_def by code_simp
  have "Parse_then_index p0 [''prog'', []] ''file'' = Inr (Value_single [])"
    unfolding p0_def by code_simp
  then obtain p' where parse: "Parse p0 (''prog'' # [[]]) = Inr p'"
    by (auto simp: Parse_then_index_def split: sum.splits)
  have t: "tokens_of p0 [[]] = Inr ([[]], [], all_options p0)"
    unfolding p0_def by code_simp
  have i: "0 < length (all_arguments p0)" by (simp add: a)
  have n: "\<not> is_package (all_arguments p0 ! 0)" by (simp add: a)
  have e: "[[]] ! token_index (all_arguments p0) (length [[] :: string]) 0 = []"
    by (simp add: token_index_def)
  from empty_token_reads_as_absent [OF r parse t i n e] parse a
  show ?thesis
    unfolding p0_def [symmetric] by (auto simp: Parse_then_index_def)
qed

text \<open>
  Claim C10. The number check is the same for the values of an option and for positional
  tokens: it passes exactly when \<open>std::stoi\<close> of the token does not throw, and the process
  ends with the failure status otherwise. Hence the values of an option that asks for
  numbers are all taken exactly when enough tokens follow and none of them makes
  \<open>std::stoi\<close> throw; without a pack, and with the count right, the positional tokens
  pass exactly when no token of an Argument that asks for numbers makes \<open>std::stoi\<close>
  throw; the tokens of a pack that asks for numbers pass exactly when none of them does;
  and an Argument beside a pack is checked in the same way on the token the first pass
  reads for it. \<open>std::stoi\<close> reads a leading integer: a token that it accepts is still
  accepted with anything appended that does not start with a digit, so \<open>3abc\<close> and
  \<open> 42\<close> pass, while \<open>abc\<close> and the empty string, which have no digit to read, are
  rejected. (A leading integer that does not fit an \<open>int\<close> makes \<open>std::stoi\<close> throw as
  well: \<open>2147483648\<close> is rejected.) The last four equations run Parse on these tokens,
  as the value of an option and as a positional token.
\<close>

theorem number_check_is_stoi:
  "((\<exists>vals rest'. take_values n True c 0 rest = Inr (vals, rest')) \<longleftrightarrow>
      c \<le> length rest \<and> (\<forall>t \<in> set (take c rest). \<not> stoi_throws t)) \<and>
   ((\<exists>vals rest'. take_values n True c 0 rest = Inr (vals, rest')) \<or>
    (\<exists>d. take_values n True c 0 rest = Inl (Exit_failure d))) \<and>
   (length cur = length as \<longrightarrow>
      (validate False as cur = Inr () \<longleftrightarrow>
         (\<forall>i < length as. arg_only_number (as ! i) \<longrightarrow> \<not> stoi_throws (cur ! i)))) \<and>
   (j + k \<le> length cur \<and> arg_only_number a \<longrightarrow>
      ((\<exists>j'. check_pack_tokens a cur k j = Inr j') \<longleftrightarrow>
         (\<forall>t \<in> set (take k (drop j cur)). \<not> stoi_throws t))) \<and>
   (\<not> is_package a \<and> arg_only_number a \<and> j < length cur \<longrightarrow>
      validate_pack (a # as) cur pvc j =
        (if stoi_throws (cur ! j)
         then Inl (Exit_failure (ArgumentRequireNumber (arg_name a) (cur ! j)))
         else validate_pack as cur pvc (Suc j))) \<and>
   (stoi_throws str \<longleftrightarrow> (\<exists>e. stoi str = Inl e)) \<and>
   (\<not> stoi_throws str \<and> (suffix = [] \<or> \<not> isdigit (hd suffix)) \<longrightarrow>
      stoi (str @ suffix) = stoi str \<and> \<not> stoi_throws (str @ suffix)) \<and>
   stoi ''3abc'' = Inr 3 \<and> stoi '' 42'' = Inr 42 \<and>
   stoi ''abc'' = Inl invalid_argument \<and> stoi [] = Inl invalid_argument \<and>
   stoi ''2147483647'' = Inr 2147483647 \<and> stoi ''2147483648'' = Inl out_of_range \<and>
   Parse_then_index (snd (AddOption (new_parser ''cat'' []) ''--lines'' 1 ''-l'' [] True))
     [''prog'', ''-l'', ''3abc''] ''--lines'' = Inr (Value_multi [''3abc'']) \<and>
   Parse_then_index (snd (AddOption (new_parser ''cat'' []) ''--lines'' 1 ''-l'' [] True))
     [''prog'', ''-l'', ''abc''] ''--lines''
     = Inl (Exit_failure (OptionRequireNumber ''--lines'' ''abc'')) \<and>
   Parse_then_index (snd (AddArgument (new_parser ''cat'' []) ''n'' [] True))
     [''prog'', '' 42''] ''n'' = Inr (Value_single '' 42'') \<and>
   Parse_then_index (snd (AddArgument (new_parser ''cat'' []) ''n'' [] True))
     [''prog'', []] ''n'' = Inl (Exit_failure (ArgumentRequireNumber ''n'' []))"
proof (intro conjI)
  show "(\<exists>vals rest'. take_values n True c 0 rest = Inr (vals, rest')) \<longleftrightarrow>
      c \<le> length rest \<and> (\<forall>t \<in> set (take c rest). \<not> stoi_throws t)"
    using take_values_passes [of n True c 0 rest] by simp
  show "(\<exists>vals rest'. take_values n True c 0 rest = Inr (vals, rest')) \<or>
    (\<exists>d. take_values n True c 0 rest = Inl (Exit_failure d))"
    by (rule take_values_fails)
  show "length cur = length as \<longrightarrow>
      (validate False as cur = Inr () \<longleftrightarrow>
         (\<forall>i < length as. arg_only_number (as ! i) \<longrightarrow> \<not> stoi_throws (cur ! i)))"
    using validate_plain_passes [of as cur 0] by (auto simp: validate_def)
  show "j + k \<le> length cur \<and> arg_only_number a \<longrightarrow>
      ((\<exists>j'. check_pack_tokens a cur k j = Inr j') \<longleftrightarrow>
         (\<forall>t \<in> set (take k (drop j cur)). \<not> stoi_throws t))"
    using check_pack_tokens_passes [of j k cur a] by simp
  show "\<not> is_package a \<and> arg_only_number a \<and> j < length cur \<longrightarrow>
      validate_pack (a # as) cur pvc j =
        (if stoi_throws (cur ! j)
         then Inl (Exit_failure (ArgumentRequireNumber (arg_name a) (cur ! j)))
         else validate_pack as cur pvc (Suc j))"
    by simp
  show "stoi_throws str \<longleftrightarrow> (\<exists>e. stoi str = Inl e)"
    by (simp add: stoi_throws_def split: sum.splits)
  show "\<not> stoi_throws str \<and> (suffix = [] \<or> \<not> isdigit (hd suffix)) \<longrightarrow>
      stoi (str @ suffix) = stoi str \<and> \<not> stoi_throws (str @ suffix)"
    using stoi_suffix [of str suffix] by (auto simp: stoi_throws_def)
  show "stoi ''3abc'' = Inr 3" "stoi '' 42'' = Inr 42"
    "stoi ''abc'' = Inl invalid_argument" "stoi [] = Inl invalid_argument"
    "stoi ''2147483647'' = Inr 2147483647" "stoi ''2147483648'' = Inl out_of_range"
    by (simp_all add: stoi_def isspace_def isdigit_def)
  show "Parse_then_index (snd (AddOption (new_parser ''cat'' []) ''--lines'' 1 ''-l'' [] True))
     [''prog'', ''-l'', ''3abc''] ''--lines'' = Inr (Value_multi [''3abc''])"
    by code_simp
  show "Parse_then_index (snd (AddOption (new_parser ''cat'' []) ''--lines'' 1 ''-l'' [] True))
     [''prog'', ''-l'', ''abc''] ''--lines''
     = Inl (Exit_failure (OptionRequireNumber ''--lines'' ''abc''))"
    by code_simp
  show "Parse_then_index (snd (AddArgument (new_parser ''cat'' []) ''n'' [] True))
     [''prog'', '' 42''] ''n'' = Inr (Value_single '' 42'')"
    by code_simp
  show "Parse_then_index (snd (AddArgument (new_parser ''cat'' []) ''n'' [] True))
     [''prog'', []] ''n'' = Inl (Exit_failure (ArgumentRequireNumber ''n'' []))"
    by code_simp
qed

theorem number_check_is_stoi_witness:
  "(\<exists>vals rest'. take_values ''--lines'' True 1 0 [''3abc'', ''x''] = Inr (vals, rest')) \<and>
   \<not> (\<exists>vals rest'. take_values ''--lines'' True 1 0 [''abc'', ''x''] = Inr (vals, rest')) \<and>
   validate False
     [\<lparr>arg_name = ''n'', arg_note = [], arg_only_number = True, is_package = False\<rparr>]
     ['' 42''] = Inr () \<and>
   (\<exists>j'. check_pack_tokens
      \<lparr>arg_name = ''n'', arg_note = [], arg_only_number = True, is_package = False\<rparr>
      ['' 42''] 1 0 = Inr j') \<and>
   validate_pack
     [\<lparr>arg_name = ''n'', arg_note = [], arg_only_number = True, is_package = False\<rparr>]
     ['' 42''] 1 0 = Inr () \<and>
   stoi (''3'' @ ''abc'') = stoi ''3''"
proof -
  define na where
    "na = \<lparr>arg_name = ''n'', arg_note = [], arg_only_number = True, is_package = False\<rparr>"
  have s1: "\<not> stoi_throws ''3abc''" "\<not> stoi_throws '' 42''" "\<not> stoi_throws ''3''"
    "stoi_throws ''abc''"
    by (simp_all add: stoi_throws_def stoi_def isspace_def isdigit_def)
  have d: "\<not> isdigit (hd ''abc'')" by (simp add: isdigit_def)
  have a: "\<not> is_package na" "arg_only_number na" by (simp_all add: na_def)
  note th = number_check_is_stoi [where n = "''--lines''" and c = 1 and cur = "['' 42'']"
      and as = "[]" and j = 0 and k = 1 and a = na and pvc = 1 and str = "''3''"
      and suffix = "''abc''"]
  from th [where rest = "[''3abc'', ''x'']"] s1
  have 1: "\<exists>vals rest'. take_values ''--lines'' True 1 0 [''3abc'', ''x''] = Inr (vals, rest')"
    by simp
  from th [where rest = "[''abc'', ''x'']"] s1
  have 2: "\<not> (\<exists>vals rest'. take_values ''--lines'' True 1 0 [''abc'', ''x''] = Inr (vals, rest'))"
    by simp
  from number_check_is_stoi [where cur = "['' 42'']" and as = "[na]"] s1 a
  have 3: "validate False [na] ['' 42''] = Inr ()"
    by simp
  from th [where rest = "[]"] s1 a
  have 4: "\<exists>j'. check_pack_tokens na ['' 42''] 1 0 = Inr j'"
    by simp
  from th [where rest = "[]"] s1 a
  have 5: "validate_pack [na] ['' 42''] 1 0 = Inr ()"
    by simp
  from th [where rest = "[]"] s1 d
  have 6: "stoi (''3'' @ ''abc'') = stoi ''3''"
    by simp
  from 1 2 3 4 5 6 show ?thesis
    unfolding na_def by blast
qed

end
